theory Spec2Isabelle
  imports Main "HOL-Library.Multiset" "HOL-Library.Sublist"
begin

section \<open>The document tree\<close>

text \<open>
  \<^verbatim>\<open>microdata.py\<close> walks an lxml element tree. Of an element it reads the tag
  (\<^verbatim>\<open>e.tag\<close>), the attributes (\<^verbatim>\<open>e.get(name, None)\<close>), the text before the
  first child (\<^verbatim>\<open>e.text\<close>), the text after the closing tag (\<^verbatim>\<open>e.tail\<close>) and
  the children in document order (\<^verbatim>\<open>e.iterchildren()\<close>). An absent text or tail
  is Python's \<^verbatim>\<open>None\<close>. Comments and processing instructions are not modelled:
  every node of the tree is an element with a string tag.
\<close>

datatype node = Node (tag: string) (attrib: "(string \<times> string) list")
  (etext: "string option") (etail: "string option") (iterchildren: "node list")

text \<open>Truthiness of a value that is a \<^verbatim>\<open>str\<close> or \<^verbatim>\<open>None\<close>: false for
  \<^verbatim>\<open>None\<close> and for the empty string.\<close>

definition truthy :: "string option \<Rightarrow> bool" where
  "truthy v = (case v of None \<Rightarrow> False | Some s \<Rightarrow> s \<noteq> [])"

text \<open>\<^verbatim>\<open>s.split(sep)\<close> for a separator of one character: every occurrence of the
  separator ends a piece, so adjacent separators give empty pieces and the empty string
  gives one empty piece.\<close>

fun py_split :: "char \<Rightarrow> string \<Rightarrow> string list" where
  "py_split sep [] = [[]]"
| "py_split sep (c # cs) =
     (if c = sep then [] # py_split sep cs
      else (case py_split sep cs of [] \<Rightarrow> [[c]] | w # ws \<Rightarrow> (c # w) # ws))"

text \<open>\<^verbatim>\<open>def _attr(e, name): return e.get(name, None)\<close>\<close>

definition attr :: "node \<Rightarrow> string \<Rightarrow> string option" where
  "attr e name = map_of (attrib e) name"

text \<open>\<^verbatim>\<open>def _is_element(e): return etree.iselement(e)\<close>; every node of the model
  is an element.\<close>

definition is_element :: "node \<Rightarrow> bool" where
  "is_element e = True"

text \<open>\<^verbatim>\<open>def _is_itemscope(e): return _attr(e, "itemscope") is not None\<close>\<close>

definition is_itemscope :: "node \<Rightarrow> bool" where
  "is_itemscope e = (attr e ''itemscope'' \<noteq> None)"

section \<open>Text of an element\<close>

text \<open>
  \<^verbatim>\<open>etree.iterwalk(node, events=('start', 'end'))\<close> yields a start event when an
  element is entered and an end event when it is left, children in between. The source
  compares the element of an event with the root by identity (\<^verbatim>\<open>element is not node\<close>);
  each event of the model carries that bit.
\<close>

datatype event = Start | End

fun iterwalk_from :: "bool \<Rightarrow> node \<Rightarrow> (event \<times> node \<times> bool) list" where
  "iterwalk_from is_node (Node t a x l cs) =
     (Start, Node t a x l cs, is_node) # concat (map (iterwalk_from False) cs)
       @ [(End, Node t a x l cs, is_node)]"

definition iterwalk :: "node \<Rightarrow> (event \<times> node \<times> bool) list" where
  "iterwalk n = iterwalk_from True n"

text \<open>
  \<^verbatim>\<open>_textiter(node, predicate)\<close> is a generator; the model returns the list of the
  strings it yields. An event whose element fails the predicate is skipped
  (\<^verbatim>\<open>continue\<close>); a start event gives the element's text, an end event of an element
  other than the root gives its tail, and a \<^verbatim>\<open>None\<close> result is not yielded.
\<close>

fun textiter :: "(node \<Rightarrow> bool) option \<Rightarrow> (event \<times> node \<times> bool) list \<Rightarrow> string list" where
  "textiter predicate [] = []"
| "textiter predicate ((ev, element, is_node) # ctx) =
     (if predicate \<noteq> None \<and> \<not> (the predicate) element then textiter predicate ctx
      else (case (if ev = Start then etext element
                  else if \<not> is_node then etail element else None) of
              None \<Rightarrow> textiter predicate ctx
            | Some result \<Rightarrow> result # textiter predicate ctx))"

text \<open>\<^verbatim>\<open>def _text(e): return ''.join(_textiter(e, predicate=lambda el: el.tag != 'script'))\<close>\<close>

definition text_of :: "node \<Rightarrow> string" where
  "text_of e = concat (textiter (Some (\<lambda>el. tag el \<noteq> ''script'')) (iterwalk e))"

section \<open>Items and property values\<close>

text \<open>
  A property value is \<^verbatim>\<open>None\<close>, a \<^verbatim>\<open>str\<close>, a \<^verbatim>\<open>URI\<close> or an \<^verbatim>\<open>Item\<close>.
  \<^verbatim>\<open>URI(string)\<close> wraps whatever it is given, also \<^verbatim>\<open>None\<close>. An \<^verbatim>\<open>Item\<close> is a
  mutable object: \<open>oid\<close> is the identity of the object (the \<^verbatim>\<open>self\<close> that
  \<^verbatim>\<open>__init__\<close> receives), \<open>itemtype\<close> and \<open>itemid\<close> are the two instance attributes
  that \<^verbatim>\<open>__init__\<close> sets only under a condition (\<open>None\<close>: the attribute was not set),
  and \<open>props\<close> is the dictionary \<^verbatim>\<open>self.props\<close> in insertion order. The source
  attaches an Item to another only after the last \<^verbatim>\<open>set\<close> on it, so a value can hold
  the Item itself.
\<close>

datatype uri = URI (uri_string: "string option")

datatype pvalue = PNone | PStr string | PURI uri | PItem item
  and item = Item (oid: nat) (itemtype: "uri list option") (itemid: "uri option")
                  (props: "(string \<times> pvalue list) list")

datatype error = ValueError | AttributeError | TypeError

definition of_str :: "string option \<Rightarrow> pvalue" where
  "of_str v = (case v of None \<Rightarrow> PNone | Some s \<Rightarrow> PStr s)"

text \<open>
  \<^verbatim>\<open>
  def __init__(self, itemtype=None, itemid=None):
      if itemtype:
          self.itemtype = [URI(i) for i in itemtype.split(" ")]
      if itemid:
          self.itemid = URI(itemid)
      self.props = {}
  \<close>
\<close>

definition Item_init :: "nat \<Rightarrow> string option \<Rightarrow> string option \<Rightarrow> item" where
  "Item_init self itemtype' itemid' =
     Item self
       (if truthy itemtype'
        then Some (map (\<lambda>i. URI (Some i)) (py_split CHR '' '' (the itemtype')))
        else None)
       (if truthy itemid' then Some (URI itemid') else None)
       []"

text \<open>
  A dictionary of lists is the list of its entries in insertion order, one entry for a
  key. \<^verbatim>\<open>d[name].append(v)\<close> when the key is present, \<^verbatim>\<open>d[name] = [v]\<close> (a new last
  key) when it is not: the body of \<^verbatim>\<open>Item.set\<close>, and what
  \<^verbatim>\<open>props[name].append(v)\<close> does on the \<^verbatim>\<open>defaultdict(list)\<close> of \<^verbatim>\<open>json_dict\<close>.
\<close>

fun dict_append :: "('k \<times> 'v list) list \<Rightarrow> 'k \<Rightarrow> 'v \<Rightarrow> ('k \<times> 'v list) list" where
  "dict_append [] name v = [(name, [v])]"
| "dict_append ((k, vs) # d) name v =
     (if k = name then (k, vs @ [v]) # d else (k, vs) # dict_append d name v)"

text \<open>
  \<^verbatim>\<open>
  def set(self, name, value):
      if name in self.props:
          self.props[name].append(value)
      else:
          self.props[name] = [value]
  \<close>
\<close>

definition Item_set :: "item \<Rightarrow> string \<Rightarrow> pvalue \<Rightarrow> item" where
  "Item_set self name v =
     Item (oid self) (itemtype self) (itemid self) (dict_append (props self) name v)"

text \<open>\<^verbatim>\<open>get_all\<close> returns the list under the name, or an empty list; \<^verbatim>\<open>get\<close>
  returns the first value of that list, or \<^verbatim>\<open>None\<close>.\<close>

definition Item_get_all :: "item \<Rightarrow> string \<Rightarrow> pvalue list" where
  "Item_get_all self name =
     (case map_of (props self) name of Some vs \<Rightarrow> vs | None \<Rightarrow> [])"

definition Item_get :: "item \<Rightarrow> string \<Rightarrow> pvalue" where
  "Item_get self name = (case Item_get_all self name of [] \<Rightarrow> PNone | v # _ \<Rightarrow> v)"

text \<open>\<^verbatim>\<open>def __getattr__(self, name): return self.get(name)\<close>: Python calls it for
  an attribute that the instance and its class do not have.\<close>

definition Item_getattr :: "item \<Rightarrow> string \<Rightarrow> pvalue" where
  "Item_getattr self name = Item_get self name"

section \<open>Serialisation\<close>

text \<open>
  The value \<^verbatim>\<open>json_dict\<close> returns: dictionaries and lists whose leaves are the
  Python values put there (\<^verbatim>\<open>None\<close>, a string, or whatever object an attribute
  lookup returned).
\<close>

datatype pyobj = PyVal pvalue | PyList "pyobj list" | PyDict "(string \<times> pyobj) list"

text \<open>
  \<^verbatim>\<open>
  if self.itemtype:
      item['type'] = [i.string for i in self.itemtype]
  \<close>
  When \<^verbatim>\<open>__init__\<close> did not set the attribute, \<^verbatim>\<open>self.itemtype\<close> goes through
  \<^verbatim>\<open>__getattr__\<close> and is the first value of the property named \<^verbatim>\<open>itemtype\<close>, or
  \<^verbatim>\<open>None\<close>. A non-empty string there is iterated by character and a character has
  no attribute \<^verbatim>\<open>string\<close>; a URI or an Item object is true and not iterable.
\<close>

definition json_type :: "item \<Rightarrow> error + (string \<times> pyobj) list" where
  "json_type self =
     (case itemtype self of
        Some uris \<Rightarrow>
          if uris = [] then Inr []
          else Inr [(''type'', PyList (map (\<lambda>i. PyVal (of_str (uri_string i))) uris))]
      | None \<Rightarrow>
          (case Item_getattr self ''itemtype'' of
             PNone \<Rightarrow> Inr []
           | PStr s \<Rightarrow> if s = [] then Inr [] else Inl AttributeError
           | PURI u \<Rightarrow> Inl TypeError
           | PItem i \<Rightarrow> Inl TypeError))"

text \<open>
  \<^verbatim>\<open>
  if self.itemid:
      item['id'] = self.itemid.string
  \<close>
  Again through \<^verbatim>\<open>__getattr__\<close> when the attribute was not set: a non-empty string
  has no attribute \<^verbatim>\<open>string\<close>, a URI gives its string, and an Item gives its own
  \<^verbatim>\<open>__getattr__("string")\<close>.
\<close>

definition json_id :: "item \<Rightarrow> error + (string \<times> pyobj) list" where
  "json_id self =
     (case itemid self of
        Some u \<Rightarrow> Inr [(''id'', PyVal (of_str (uri_string u)))]
      | None \<Rightarrow>
          (case Item_getattr self ''itemid'' of
             PNone \<Rightarrow> Inr []
           | PStr s \<Rightarrow> if s = [] then Inr [] else Inl AttributeError
           | PURI u \<Rightarrow> Inr [(''id'', PyVal (of_str (uri_string u)))]
           | PItem i \<Rightarrow> Inr [(''id'', PyVal (Item_getattr i ''string''))]))"

text \<open>
  \<^verbatim>\<open>
  item['properties'] = props = defaultdict(list)
  for name, values in self.props.items():
      for v in values:
          if isinstance(v, Item):
              props[name].append(v.json_dict())
          elif isinstance(v, URI):
              props[name].append(v.string)
          else:
              props[name].append(v)
  return item
  \<close>
\<close>

function json_dict :: "item \<Rightarrow> error + pyobj"
  and json_props :: "(string \<times> pvalue list) list \<Rightarrow> (string \<times> pyobj list) list
                      \<Rightarrow> error + (string \<times> pyobj list) list"
  and json_values :: "string \<Rightarrow> pvalue list \<Rightarrow> (string \<times> pyobj list) list
                      \<Rightarrow> error + (string \<times> pyobj list) list"
where
  "json_dict (Item self ty ident ps) =
     (case json_type (Item self ty ident ps) of
        Inl err \<Rightarrow> Inl err
      | Inr t \<Rightarrow>
         (case json_id (Item self ty ident ps) of
            Inl err \<Rightarrow> Inl err
          | Inr d \<Rightarrow>
             (case json_props ps [] of
                Inl err \<Rightarrow> Inl err
              | Inr out \<Rightarrow>
                 Inr (PyDict (t @ d @
                   [(''properties'', PyDict (map (\<lambda>(k, vs). (k, PyList vs)) out))])))))"
| "json_props [] out = Inr out"
| "json_props ((name, values) # rest) out =
     (case json_values name values out of
        Inl err \<Rightarrow> Inl err
      | Inr out' \<Rightarrow> json_props rest out')"
| "json_values name [] out = Inr out"
| "json_values name (v # vs) out =
     (case v of
        PItem i \<Rightarrow>
          (case json_dict i of
             Inl err \<Rightarrow> Inl err
           | Inr j \<Rightarrow> json_values name vs (dict_append out name j))
      | PURI u \<Rightarrow> json_values name vs (dict_append out name (PyVal (of_str (uri_string u))))
      | _ \<Rightarrow> json_values name vs (dict_append out name (PyVal v)))"
  by pat_completeness auto
termination
  by (relation "measure (\<lambda>x. case x of
          Inl i \<Rightarrow> size i
        | Inr (Inl (ps, out)) \<Rightarrow> size_list (size_prod (\<lambda>_. 0) (size_list size)) ps
        | Inr (Inr (name, vs, out)) \<Rightarrow> size_list size vs)") auto

section \<open>Extraction\<close>

text \<open>The table \<^verbatim>\<open>property_values\<close> of the source, tag to attribute.\<close>

definition property_values :: "(string \<times> string) list" where
  "property_values =
    [(''meta'', ''content''), (''audio'', ''src''), (''embed'', ''src''),
     (''iframe'', ''src''), (''img'', ''src''), (''source'', ''src''),
     (''video'', ''src''), (''a'', ''href''), (''area'', ''href''),
     (''link'', ''href''), (''object'', ''data''), (''time'', ''datetime'')]"

text \<open>
  \<^verbatim>\<open>
  def _property_value(e):
      value = None
      attrib = property_values.get(e.tag, None)
      if attrib in ["href", "src"]:
          value = URI(e.get(attrib))
      elif attrib:
          value = e.get(attrib)
      else:
          value = e.get("content") or _text(e)
      return value
  \<close>
\<close>

definition property_value :: "node \<Rightarrow> pvalue" where
  "property_value e =
     (let attrib' = map_of property_values (tag e) in
      if attrib' = Some ''href'' \<or> attrib' = Some ''src'' then PURI (URI (attr e (the attrib')))
      else if truthy attrib' then of_str (attr e (the attrib'))
      else if truthy (attr e ''content'') then of_str (attr e ''content'')
      else PStr (text_of e))"

text \<open>
  \<^verbatim>\<open>
  def _make_item(e):
      if not _is_itemscope(e):
          raise ValueError("element is not an Item")
      itemtype = _attr(e, "itemtype")
      itemid = _attr(e, "itemid")
      return Item(itemtype, itemid)
  \<close>
  The second argument is the identity of the new object.
\<close>

definition make_item :: "node \<Rightarrow> nat \<Rightarrow> error + item" where
  "make_item e self =
     (if \<not> is_itemscope e then Inl ValueError
      else Inr (Item_init self (attr e ''itemtype'') (attr e ''itemid'')))"

text \<open>
  \<^verbatim>\<open>_extract(e, item)\<close> mutates \<^verbatim>\<open>item\<close> and returns the unlinked elements. The
  model passes the item and the next free object identity through and returns both with
  the unlinked elements; \<open>extract_children\<close> is the loop over
  \<^verbatim>\<open>e.iterchildren()\<close>.
  \<^verbatim>\<open>
  for child in e.iterchildren():
      itemprop = _attr(child, "itemprop")
      itemscope = _is_itemscope(child)
      if itemprop and itemscope:
          nested_item = _make_item(child)
          unlinked.extend(_extract(child, nested_item))
          item.set(itemprop, nested_item)
      elif itemprop:
          value = _property_value(child)
          for i in itemprop.split(" "):
              item.set(i, value)
          unlinked.extend(_extract(child, item))
      elif itemscope:
          unlinked.append(child)
      else:
          unlinked.extend(_extract(child, item))
  return unlinked
  \<close>
\<close>

fun extract_item :: "node \<Rightarrow> item \<Rightarrow> nat \<Rightarrow> error + (node list \<times> item \<times> nat)"
  and extract_children :: "node list \<Rightarrow> item \<Rightarrow> nat \<Rightarrow> error + (node list \<times> item \<times> nat)"
where
  "extract_item (Node t a x l cs) item n = extract_children cs item n"
| "extract_children [] item n = Inr ([], item, n)"
| "extract_children (child # rest) item n =
     (let itemprop = attr child ''itemprop''; itemscope = is_itemscope child in
      if truthy itemprop \<and> itemscope then
        (case make_item child n of
           Inl err \<Rightarrow> Inl err
         | Inr nested_item \<Rightarrow>
            (case extract_item child nested_item (Suc n) of
               Inl err \<Rightarrow> Inl err
             | Inr (u1, nested_item', n1) \<Rightarrow>
                (case extract_children rest
                        (Item_set item (the itemprop) (PItem nested_item')) n1 of
                   Inl err \<Rightarrow> Inl err
                 | Inr (u2, item', n2) \<Rightarrow> Inr (u1 @ u2, item', n2))))
      else if truthy itemprop then
        (let v = property_value child;
             item1 = foldl (\<lambda>it i. Item_set it i v) item (py_split CHR '' '' (the itemprop))
         in case extract_item child item1 n of
              Inl err \<Rightarrow> Inl err
            | Inr (u1, item2, n1) \<Rightarrow>
               (case extract_children rest item2 n1 of
                  Inl err \<Rightarrow> Inl err
                | Inr (u2, item', n2) \<Rightarrow> Inr (u1 @ u2, item', n2)))
      else if itemscope then
        (case extract_children rest item n of
           Inl err \<Rightarrow> Inl err
         | Inr (u2, item', n2) \<Rightarrow> Inr (child # u2, item', n2))
      else
        (case extract_item child item n of
           Inl err \<Rightarrow> Inl err
         | Inr (u1, item1, n1) \<Rightarrow>
            (case extract_children rest item1 n1 of
               Inl err \<Rightarrow> Inl err
             | Inr (u2, item', n2) \<Rightarrow> Inr (u1 @ u2, item', n2))))"

text \<open>
  \<^verbatim>\<open>
  def _find_items(e):
      items = []
      unlinked = []
      if _is_element(e) and _is_itemscope(e):
          item = _make_item(e)
          unlinked = _extract(e, item)
          items.append(item)
          for unlinked_element in unlinked:
              items.extend(_find_items(unlinked_element))
      else:
          for child in e.iterchildren():
              items.extend(_find_items(child))
      return items
  \<close>
  \<open>find_items_each\<close> is either loop: the items of each element of a list, in order.
  The recursion on the unlinked elements ends because they are disjoint subtrees below
  \<open>e\<close>.
\<close>

function find_items :: "node \<Rightarrow> nat \<Rightarrow> error + (item list \<times> nat)"
  and find_items_each :: "node list \<Rightarrow> nat \<Rightarrow> error + (item list \<times> nat)"
where
  "find_items e n =
     (if is_element e \<and> is_itemscope e then
        (case make_item e n of
           Inl err \<Rightarrow> Inl err
         | Inr item \<Rightarrow>
            (case extract_item e item (Suc n) of
               Inl err \<Rightarrow> Inl err
             | Inr (unlinked, item', n1) \<Rightarrow>
                (case find_items_each unlinked n1 of
                   Inl err \<Rightarrow> Inl err
                 | Inr (items, n2) \<Rightarrow> Inr (item' # items, n2))))
      else find_items_each (iterchildren e) n)"
| "find_items_each [] n = Inr ([], n)"
| "find_items_each (c # cs) n =
     (case find_items c n of
        Inl err \<Rightarrow> Inl err
      | Inr (xs, n1) \<Rightarrow>
         (case find_items_each cs n1 of
            Inl err \<Rightarrow> Inl err
          | Inr (ys, n2) \<Rightarrow> Inr (xs @ ys, n2)))"
  by pat_completeness auto
termination
proof -
  have unlinked_size:
    "(\<forall>u item' n'. extract_item e item n = Inr (u, item', n')
        \<longrightarrow> size_list size u < size e)"
    "(\<forall>u item' n'. extract_children cs item n = Inr (u, item', n')
        \<longrightarrow> size_list size u \<le> size_list size cs)" for e cs item n
  proof (induction e item n and cs item n rule: extract_item_extract_children.induct)
    case (1 t a x l cs item n)
    then show ?case by fastforce
  next
    case (2 item n)
    then show ?case by simp
  next
    case (3 child rest item n)
    let ?ip = "attr child ''itemprop''"
    show ?case
    proof (intro allI impI)
      fix u item' n'
      assume prem: "extract_children (child # rest) item n = Inr (u, item', n')"
      consider (nested) "truthy ?ip" "is_itemscope child"
        | (plain) "truthy ?ip" "\<not> is_itemscope child"
        | (unlinked) "\<not> truthy ?ip" "is_itemscope child"
        | (transparent) "\<not> truthy ?ip" "\<not> is_itemscope child"
        by blast
      then show "size_list size u \<le> size_list size (child # rest)"
      proof cases
        case nested
        with prem obtain ni u1 ni' n1 u2 where
          m: "make_item child n = Inr ni" and
          e1: "extract_item child ni (Suc n) = Inr (u1, ni', n1)" and
          e2: "extract_children rest (Item_set item (the ?ip) (PItem ni')) n1
                 = Inr (u2, item', n')" and
          u: "u = u1 @ u2"
          by (auto split: sum.splits)
        from "3.IH"(1)[OF refl refl _ m] e1 nested have "size_list size u1 < size child"
          by simp
        moreover from "3.IH"(2)[OF refl refl _ m e1 refl refl] e2 nested
        have "size_list size u2 \<le> size_list size rest" by simp
        ultimately show ?thesis using u by simp
      next
        case plain
        let ?it = "foldl (\<lambda>it i. Item_set it i (property_value child)) item
                     (py_split CHR '' '' (the ?ip))"
        from plain prem obtain u1 it2 n1 u2 where
          e1: "extract_item child ?it n = Inr (u1, it2, n1)" and
          e2: "extract_children rest it2 n1 = Inr (u2, item', n')" and
          u: "u = u1 @ u2"
          by (auto simp: Let_def split: sum.splits)
        from "3.IH"(3)[OF refl refl _ _ refl refl] e1 plain
        have "size_list size u1 < size child" by simp
        moreover from "3.IH"(4)[OF refl refl _ _ refl refl e1 refl refl] e2 plain
        have "size_list size u2 \<le> size_list size rest" by simp
        ultimately show ?thesis using u by simp
      next
        case unlinked
        with prem obtain u2 where
          e2: "extract_children rest item n = Inr (u2, item', n')" and u: "u = child # u2"
          by (auto split: sum.splits)
        from "3.IH"(5)[OF refl refl] e2 unlinked
        have "size_list size u2 \<le> size_list size rest" by simp
        then show ?thesis using u by simp
      next
        case transparent
        with prem obtain u1 it1 n1 u2 where
          e1: "extract_item child item n = Inr (u1, it1, n1)" and
          e2: "extract_children rest it1 n1 = Inr (u2, item', n')" and
          u: "u = u1 @ u2"
          by (auto split: sum.splits)
        from "3.IH"(6)[OF refl refl] e1 transparent
        have "size_list size u1 < size child" by simp
        moreover from "3.IH"(7)[OF refl refl _ _ _ e1 refl refl] e2 transparent
        have "size_list size u2 \<le> size_list size rest" by simp
        ultimately show ?thesis using u by simp
      qed
    qed
  qed
  show ?thesis
  proof (relation "measure (\<lambda>x. case x of Inl (e, n) \<Rightarrow> 2 * size e
                                       | Inr (cs, n) \<Rightarrow> 2 * size_list size cs + 1)",
         goal_cases)
    case 1
    then show ?case by simp
  next
    case (2 e n item unl x y item' n1)
    then show ?case using unlinked_size(1)[of e item "Suc n"] by auto
  next
    case (3 e n)
    then show ?case by (cases e) simp
  next
    case 4
    then show ?case by simp
  next
    case 5
    then show ?case by simp
  qed
qed

section \<open>Notions used in the statements\<close>

text \<open>\<^verbatim>\<open>sep.join(pieces)\<close>, the inverse of \<open>py_split\<close>.\<close>

fun py_join :: "char \<Rightarrow> string list \<Rightarrow> string" where
  "py_join sep [] = []"
| "py_join sep [w] = w"
| "py_join sep (w # v # ws) = w @ sep # py_join sep (v # ws)"

text \<open>The identities of the Item objects that an Item holds: its own, then those of the
  Items nested in its property values, to any depth.\<close>

fun item_oids :: "item \<Rightarrow> nat list" and value_oids :: "pvalue \<Rightarrow> nat list" where
  "item_oids (Item i t d ps) = i # concat (map (\<lambda>(k, vs). concat (map value_oids vs)) ps)"
| "value_oids (PItem it) = item_oids it"
| "value_oids PNone = []"
| "value_oids (PStr s) = []"
| "value_oids (PURI u) = []"

text \<open>The invariant of the property dictionary, at every depth: a name that is present
  has at least one value.\<close>

fun item_ok :: "item \<Rightarrow> bool" and value_ok :: "pvalue \<Rightarrow> bool" where
  "item_ok (Item i t d ps) = (\<forall>(k, vs) \<in> set ps. vs \<noteq> [] \<and> (\<forall>v \<in> set vs. value_ok v))"
| "value_ok (PItem it) = item_ok it"
| "value_ok PNone = True"
| "value_ok (PStr s) = True"
| "value_ok (PURI u) = True"

text \<open>No element of the tree carries \<^verbatim>\<open>itemscope\<close>.\<close>

fun itemscope_free :: "node \<Rightarrow> bool" where
  "itemscope_free (Node t a x l cs) =
     (\<not> is_itemscope (Node t a x l cs) \<and> (\<forall>c \<in> set cs. itemscope_free c))"

text \<open>The proper descendants of an element in document order.\<close>

fun descendants :: "node \<Rightarrow> node list" where
  "descendants (Node t a x l cs) = concat (map (\<lambda>c. c # descendants c) cs)"

text \<open>\<open>item_of r it\<close>: \<open>it\<close> is the Item that \<^verbatim>\<open>_find_items\<close> builds at the element
  \<open>r\<close>, made by \<^verbatim>\<open>_make_item(r)\<close> and filled by \<^verbatim>\<open>_extract(r, item)\<close>.\<close>

definition item_of :: "node \<Rightarrow> item \<Rightarrow> bool" where
  "item_of r it \<longleftrightarrow>
     is_itemscope r \<and>
     (\<exists>u k. extract_item r (Item_init (oid it) (attr r ''itemtype'') (attr r ''itemid''))
               (Suc (oid it)) = Inr (u, it, k))"

text \<open>An Item with the Items nested in its property values, to any depth; \<open>nested_items\<close>
  are those strictly inside it.\<close>

fun all_items :: "item \<Rightarrow> item list" and value_items :: "pvalue \<Rightarrow> item list" where
  "all_items (Item i t d ps) =
     Item i t d ps # concat (map (\<lambda>(k, vs). concat (map value_items vs)) ps)"
| "value_items (PItem it) = all_items it"
| "value_items PNone = []"
| "value_items (PStr s) = []"
| "value_items (PURI u) = []"

definition nested_items :: "item \<Rightarrow> item list" where
  "nested_items it = tl (all_items it)"

text \<open>The elements of a tree, in document order, that carry \<^verbatim>\<open>itemscope\<close> and have no
  ancestor with \<^verbatim>\<open>itemscope\<close> in the tree or no non-empty \<^verbatim>\<open>itemprop\<close>. The flag
  says whether an ancestor with \<^verbatim>\<open>itemscope\<close> has been passed.\<close>

fun flat_roots :: "bool \<Rightarrow> node \<Rightarrow> node list" where
  "flat_roots inside (Node t a x l cs) =
     (if is_itemscope (Node t a x l cs)
         \<and> (\<not> inside \<or> \<not> truthy (attr (Node t a x l cs) ''itemprop''))
      then [Node t a x l cs] else [])
     @ concat (map (flat_roots (inside \<or> is_itemscope (Node t a x l cs))) cs)"

text \<open>The elements with \<^verbatim>\<open>itemscope\<close> and a non-empty \<^verbatim>\<open>itemprop\<close> that are reached
  from an element through elements without \<^verbatim>\<open>itemscope\<close> only: the elements whose
  Items are properties of the Item of that element.\<close>

fun direct_linked :: "node \<Rightarrow> node list" where
  "direct_linked (Node t a x l cs) =
     concat (map (\<lambda>c. if is_itemscope c
                        then (if truthy (attr c ''itemprop'') then [c] else [])
                        else direct_linked c) cs)"

section \<open>Strings\<close>

lemma py_split_not_Nil: "py_split sep s \<noteq> []"
  by (induction s) (auto split: list.splits)

lemma py_join_split: "py_join sep (py_split sep s) = s"
proof (induction s)
  case Nil
  then show ?case by simp
next
  case (Cons c cs)
  obtain w ws where ws: "py_split sep cs = w # ws"
    using py_split_not_Nil[of sep cs] by (cases "py_split sep cs") auto
  with Cons show ?case by (cases ws) auto
qed

lemma py_split_no_sep: "p \<in> set (py_split sep s) \<Longrightarrow> sep \<notin> set p"
  by (induction s arbitrary: p) (auto split: list.splits if_splits)

section \<open>Extraction, branch by branch\<close>

lemma sum_bind_Inr:
  "(case x of Inl e \<Rightarrow> Inl e | Inr r \<Rightarrow> f r) = Inr y \<longleftrightarrow> (\<exists>r. x = Inr r \<and> f r = Inr y)"
  by (cases x) auto

lemma make_item_Inr:
  "is_itemscope e \<Longrightarrow> make_item e n = Inr (Item_init n (attr e ''itemtype'') (attr e ''itemid''))"
  by (simp add: make_item_def)

lemma extract_children_nested:
  assumes "truthy (attr c ''itemprop'')" "is_itemscope c"
  shows "extract_children (c # rest) item n =
    (case extract_item c (Item_init n (attr c ''itemtype'') (attr c ''itemid'')) (Suc n) of
       Inl err \<Rightarrow> Inl err
     | Inr (u1, nested, n1) \<Rightarrow>
        (case extract_children rest (Item_set item (the (attr c ''itemprop'')) (PItem nested)) n1 of
           Inl err \<Rightarrow> Inl err
         | Inr (u2, item', n2) \<Rightarrow> Inr (u1 @ u2, item', n2)))"
  using assms by (simp add: make_item_Inr)

lemma extract_children_plain:
  assumes "truthy (attr c ''itemprop'')" "\<not> is_itemscope c"
  shows "extract_children (c # rest) item n =
    (case extract_item c (foldl (\<lambda>it i. Item_set it i (property_value c)) item
                            (py_split CHR '' '' (the (attr c ''itemprop'')))) n of
       Inl err \<Rightarrow> Inl err
     | Inr (u1, item2, n1) \<Rightarrow>
        (case extract_children rest item2 n1 of
           Inl err \<Rightarrow> Inl err
         | Inr (u2, item', n2) \<Rightarrow> Inr (u1 @ u2, item', n2)))"
  using assms by (simp add: Let_def)

lemma extract_children_unlinked:
  assumes "\<not> truthy (attr c ''itemprop'')" "is_itemscope c"
  shows "extract_children (c # rest) item n =
    (case extract_children rest item n of
       Inl err \<Rightarrow> Inl err
     | Inr (u2, item', n2) \<Rightarrow> Inr (c # u2, item', n2))"
  using assms by simp

lemma extract_children_transparent:
  assumes "\<not> truthy (attr c ''itemprop'')" "\<not> is_itemscope c"
  shows "extract_children (c # rest) item n =
    (case extract_item c item n of
       Inl err \<Rightarrow> Inl err
     | Inr (u1, item1, n1) \<Rightarrow>
        (case extract_children rest item1 n1 of
           Inl err \<Rightarrow> Inl err
         | Inr (u2, item', n2) \<Rightarrow> Inr (u1 @ u2, item', n2)))"
  using assms by simp

declare extract_children.simps(2) [simp del]

text \<open>The induction rule of the extraction with one case for each branch of the loop
  body.\<close>

lemma extract_induct [case_names Node Nil nested plain unlinked transparent]:
  fixes P :: "node \<Rightarrow> item \<Rightarrow> nat \<Rightarrow> bool" and Q :: "node list \<Rightarrow> item \<Rightarrow> nat \<Rightarrow> bool"
  assumes N: "\<And>t a x l cs item n. Q cs item n \<Longrightarrow> P (Node t a x l cs) item n"
    and E: "\<And>item n. Q [] item n"
    and A: "\<And>c rest item n.
        \<lbrakk>truthy (attr c ''itemprop''); is_itemscope c;
         P c (Item_init n (attr c ''itemtype'') (attr c ''itemid'')) (Suc n);
         \<And>u1 nested n1.
           extract_item c (Item_init n (attr c ''itemtype'') (attr c ''itemid'')) (Suc n)
             = Inr (u1, nested, n1)
           \<Longrightarrow> Q rest (Item_set item (the (attr c ''itemprop'')) (PItem nested)) n1\<rbrakk>
        \<Longrightarrow> Q (c # rest) item n"
    and B: "\<And>c rest item n.
        \<lbrakk>truthy (attr c ''itemprop''); \<not> is_itemscope c;
         P c (foldl (\<lambda>it i. Item_set it i (property_value c)) item
                (py_split CHR '' '' (the (attr c ''itemprop'')))) n;
         \<And>u1 item2 n1.
           extract_item c (foldl (\<lambda>it i. Item_set it i (property_value c)) item
                (py_split CHR '' '' (the (attr c ''itemprop'')))) n = Inr (u1, item2, n1)
           \<Longrightarrow> Q rest item2 n1\<rbrakk>
        \<Longrightarrow> Q (c # rest) item n"
    and C: "\<And>c rest item n.
        \<lbrakk>\<not> truthy (attr c ''itemprop''); is_itemscope c; Q rest item n\<rbrakk>
        \<Longrightarrow> Q (c # rest) item n"
    and D: "\<And>c rest item n.
        \<lbrakk>\<not> truthy (attr c ''itemprop''); \<not> is_itemscope c; P c item n;
         \<And>u1 item1 n1. extract_item c item n = Inr (u1, item1, n1) \<Longrightarrow> Q rest item1 n1\<rbrakk>
        \<Longrightarrow> Q (c # rest) item n"
  shows "P e item n" and "Q cs item n"
proof (induction e item n and cs item n rule: extract_item_extract_children.induct)
  case (1 t a x l cs item n)
  then show ?case by (rule N)
next
  case (2 item n)
  show ?case by (rule E)
next
  case (3 child rest item n)
  consider (a) "truthy (attr child ''itemprop'')" "is_itemscope child"
    | (b) "truthy (attr child ''itemprop'')" "\<not> is_itemscope child"
    | (c) "\<not> truthy (attr child ''itemprop'')" "is_itemscope child"
    | (d) "\<not> truthy (attr child ''itemprop'')" "\<not> is_itemscope child"
    by blast
  then show ?case
  proof cases
    case a
    have m: "make_item child n = Inr (Item_init n (attr child ''itemtype'') (attr child ''itemid''))"
      using a by (simp add: make_item_Inr)
    show ?thesis
    proof (rule A[OF a])
      show "P child (Item_init n (attr child ''itemtype'') (attr child ''itemid'')) (Suc n)"
        using "3.IH"(1)[OF refl refl _ m] a by simp
    next
      fix u1 nested n1
      assume e1: "extract_item child (Item_init n (attr child ''itemtype'') (attr child ''itemid'')) (Suc n)
             = Inr (u1, nested, n1)"
      show "Q rest (Item_set item (the (attr child ''itemprop'')) (PItem nested)) n1"
        using "3.IH"(2)[OF refl refl _ m e1 refl refl] a by simp
    qed
  next
    case b
    show ?thesis
    proof (rule B[OF b])
      show "P child (foldl (\<lambda>it i. Item_set it i (property_value child)) item
                (py_split CHR '' '' (the (attr child ''itemprop'')))) n"
        using "3.IH"(3)[OF refl refl _ _ refl refl] b by simp
    next
      fix u1 item2 n1
      assume e1: "extract_item child (foldl (\<lambda>it i. Item_set it i (property_value child)) item
                (py_split CHR '' '' (the (attr child ''itemprop'')))) n = Inr (u1, item2, n1)"
      show "Q rest item2 n1"
        using "3.IH"(4)[OF refl refl _ _ refl refl e1 refl refl] b by simp
    qed
  next
    case c
    show ?thesis
      using "3.IH"(5)[OF refl refl] c by (intro C) simp_all
  next
    case d
    show ?thesis
    proof (rule D[OF d])
      show "P child item n" using "3.IH"(6)[OF refl refl] d by simp
    next
      fix u1 item1 n1
      assume e1: "extract_item child item n = Inr (u1, item1, n1)"
      show "Q rest item1 n1"
        using "3.IH"(7)[OF refl refl _ _ _ e1 refl refl] d by simp
    qed
  qed
qed

lemma extract_total:
  "\<exists>u item' n'. extract_item e item n = Inr (u, item', n')"
  "\<exists>u item' n'. extract_children cs item n = Inr (u, item', n')"
proof (induction e item n and cs item n rule: extract_induct)
  case (Node t a x l cs item n)
  then show ?case by simp
next
  case (Nil item n)
  then show ?case by simp
next
  case (nested c rest item n)
  from nested(3) obtain u1 ni n1 where e1:
    "extract_item c (Item_init n (attr c ''itemtype'') (attr c ''itemid'')) (Suc n) = Inr (u1, ni, n1)"
    by blast
  from nested(4)[OF e1] obtain u2 it' n2 where
    "extract_children rest (Item_set item (the (attr c ''itemprop'')) (PItem ni)) n1 = Inr (u2, it', n2)"
    by blast
  with e1 show ?case by (simp add: extract_children_nested[OF nested(1,2)])
next
  case (plain c rest item n)
  from plain(3) obtain u1 it2 n1 where e1:
    "extract_item c (foldl (\<lambda>it i. Item_set it i (property_value c)) item
                (py_split CHR '' '' (the (attr c ''itemprop'')))) n = Inr (u1, it2, n1)"
    by blast
  from plain(4)[OF e1] obtain u2 it' n2 where
    "extract_children rest it2 n1 = Inr (u2, it', n2)" by blast
  with e1 show ?case by (simp add: extract_children_plain[OF plain(1,2)])
next
  case (unlinked c rest item n)
  then show ?case by (auto simp: extract_children_unlinked)
next
  case (transparent c rest item n)
  from transparent(3) obtain u1 it1 n1 where e1:
    "extract_item c item n = Inr (u1, it1, n1)" by blast
  from transparent(4)[OF e1] obtain u2 it' n2 where
    "extract_children rest it1 n1 = Inr (u2, it', n2)" by blast
  with e1 show ?case by (simp add: extract_children_transparent[OF transparent(1,2)])
qed

lemma extract_children_nestedE:
  assumes "truthy (attr c ''itemprop'')" "is_itemscope c"
    and "extract_children (c # rest) item n = Inr (u, item', n')"
  obtains u1 nested n1 u2 where
    "extract_item c (Item_init n (attr c ''itemtype'') (attr c ''itemid'')) (Suc n)
       = Inr (u1, nested, n1)"
    "extract_children rest (Item_set item (the (attr c ''itemprop'')) (PItem nested)) n1
       = Inr (u2, item', n')"
    "u = u1 @ u2"
  using assms(3) unfolding extract_children_nested[OF assms(1,2)]
  by (auto simp: sum_bind_Inr)

lemma extract_children_plainE:
  assumes "truthy (attr c ''itemprop'')" "\<not> is_itemscope c"
    and "extract_children (c # rest) item n = Inr (u, item', n')"
  obtains u1 item2 n1 u2 where
    "extract_item c (foldl (\<lambda>it i. Item_set it i (property_value c)) item
                       (py_split CHR '' '' (the (attr c ''itemprop'')))) n = Inr (u1, item2, n1)"
    "extract_children rest item2 n1 = Inr (u2, item', n')"
    "u = u1 @ u2"
  using assms(3) unfolding extract_children_plain[OF assms(1,2)]
  by (auto simp: sum_bind_Inr)

lemma extract_children_unlinkedE:
  assumes "\<not> truthy (attr c ''itemprop'')" "is_itemscope c"
    and "extract_children (c # rest) item n = Inr (u, item', n')"
  obtains u2 where
    "extract_children rest item n = Inr (u2, item', n')"
    "u = c # u2"
  using assms(3) unfolding extract_children_unlinked[OF assms(1,2)]
  by (auto simp: sum_bind_Inr)

lemma extract_children_transparentE:
  assumes "\<not> truthy (attr c ''itemprop'')" "\<not> is_itemscope c"
    and "extract_children (c # rest) item n = Inr (u, item', n')"
  obtains u1 item1 n1 u2 where
    "extract_item c item n = Inr (u1, item1, n1)"
    "extract_children rest item1 n1 = Inr (u2, item', n')"
    "u = u1 @ u2"
  using assms(3) unfolding extract_children_transparent[OF assms(1,2)]
  by (auto simp: sum_bind_Inr)

section \<open>Dictionaries and Items\<close>

lemma dict_append_oids:
  "mset (concat (map (\<lambda>(k, vs). concat (map value_oids vs)) (dict_append d name v)))
     = mset (concat (map (\<lambda>(k, vs). concat (map value_oids vs)) d)) + mset (value_oids v)"
  by (induction d name v rule: dict_append.induct) auto

lemma Item_set_oids:
  "mset (item_oids (Item_set it name v)) = mset (item_oids it) + mset (value_oids v)"
  by (cases it) (simp add: Item_set_def dict_append_oids)

lemma Item_set_sel [simp]:
  "oid (Item_set it name v) = oid it"
  "itemtype (Item_set it name v) = itemtype it"
  "itemid (Item_set it name v) = itemid it"
  by (simp_all add: Item_set_def)

lemma map_of_dict_append:
  "map_of (dict_append d name v) k =
     (if k = name then Some ((case map_of d name of None \<Rightarrow> [] | Some vs \<Rightarrow> vs) @ [v])
      else map_of d k)"
  by (induction d name v rule: dict_append.induct) auto

lemma Item_get_all_set:
  "Item_get_all (Item_set it name v) k =
     (if k = name then Item_get_all it name @ [v] else Item_get_all it k)"
  by (simp add: Item_get_all_def Item_set_def map_of_dict_append)

lemma Item_get_all_foldl_set:
  "Item_get_all (foldl (\<lambda>it i. Item_set it i v) it names) k
     = Item_get_all it k @ replicate (count_list names k) v"
  by (induction names arbitrary: it) (auto simp: Item_get_all_set replicate_app_Cons_same)

lemma foldl_set_oids:
  "value_oids v = [] \<Longrightarrow>
   mset (item_oids (foldl (\<lambda>it i. Item_set it i v) it names)) = mset (item_oids it)"
  by (induction names arbitrary: it) (auto simp: Item_set_oids)

lemma foldl_set_sel [simp]:
  "oid (foldl (\<lambda>it i. Item_set it i v) it names) = oid it"
  "itemtype (foldl (\<lambda>it i. Item_set it i v) it names) = itemtype it"
  "itemid (foldl (\<lambda>it i. Item_set it i v) it names) = itemid it"
  by (induction names arbitrary: it) auto

lemma property_value_oids [simp]: "value_oids (property_value e) = []"
  by (simp add: property_value_def Let_def of_str_def split: option.splits)

section \<open>What the extraction keeps\<close>

lemma extract_attrs:
  "extract_item e item n = Inr (u, item', n') \<Longrightarrow>
     oid item' = oid item \<and> itemtype item' = itemtype item \<and> itemid item' = itemid item"
  "extract_children cs item n = Inr (u, item', n') \<Longrightarrow>
     oid item' = oid item \<and> itemtype item' = itemtype item \<and> itemid item' = itemid item"
proof (induction e item n and cs item n arbitrary: u item' n' and u item' n' rule: extract_induct)
  case (Node t a x l cs item n)
  then show ?case by simp
next
  case (Nil item n)
  then show ?case by simp
next
  case (nested c rest item n)
  from nested(1,2,5) obtain u1 ni n1 u2 where
    e1: "extract_item c (Item_init n (attr c ''itemtype'') (attr c ''itemid'')) (Suc n)
           = Inr (u1, ni, n1)" and
    e2: "extract_children rest (Item_set item (the (attr c ''itemprop'')) (PItem ni)) n1
           = Inr (u2, item', n')"
    by (rule extract_children_nestedE)
  from nested(4)[OF e1 e2] show ?case by simp
next
  case (plain c rest item n)
  from plain(1,2,5) obtain u1 item2 n1 u2 where
    e1: "extract_item c (foldl (\<lambda>it i. Item_set it i (property_value c)) item
                       (py_split CHR '' '' (the (attr c ''itemprop'')))) n = Inr (u1, item2, n1)" and
    e2: "extract_children rest item2 n1 = Inr (u2, item', n')"
    by (rule extract_children_plainE)
  from plain(3)[OF e1] plain(4)[OF e1 e2] show ?case by simp
next
  case (unlinked c rest item n)
  from unlinked(1,2,4) obtain u2 where
    e2: "extract_children rest item n = Inr (u2, item', n')"
    by (rule extract_children_unlinkedE)
  from unlinked(3)[OF e2] show ?case .
next
  case (transparent c rest item n)
  from transparent(1,2,5) obtain u1 item1 n1 u2 where
    e1: "extract_item c item n = Inr (u1, item1, n1)" and
    e2: "extract_children rest item1 n1 = Inr (u2, item', n')"
    by (rule extract_children_transparentE)
  from transparent(3)[OF e1] transparent(4)[OF e1 e2] show ?case by simp
qed

lemma item_oids_init [simp]: "item_oids (Item_init n t d) = [n]"
  by (simp add: Item_init_def)

lemma mset_upt_split: "n \<le> m \<Longrightarrow> m \<le> k \<Longrightarrow> mset [n..<k] = mset [n..<m] + mset [m..<k]"
  by (metis le_Suc_ex mset_append upt_add_eq_append)

lemma extract_oids:
  "extract_item e item n = Inr (u, item', n') \<Longrightarrow>
     n \<le> n' \<and> mset (item_oids item') = mset (item_oids item) + mset [n..<n']"
  "extract_children cs item n = Inr (u, item', n') \<Longrightarrow>
     n \<le> n' \<and> mset (item_oids item') = mset (item_oids item) + mset [n..<n']"
proof (induction e item n and cs item n arbitrary: u item' n' and u item' n' rule: extract_induct)
  case (Node t a x l cs item n)
  then show ?case by simp
next
  case (Nil item n)
  then show ?case by simp
next
  case (nested c rest item n)
  from nested(1,2,5) obtain u1 ni n1 u2 where
    e1: "extract_item c (Item_init n (attr c ''itemtype'') (attr c ''itemid'')) (Suc n)
           = Inr (u1, ni, n1)" and
    e2: "extract_children rest (Item_set item (the (attr c ''itemprop'')) (PItem ni)) n1
           = Inr (u2, item', n')"
    by (rule extract_children_nestedE)
  from nested(3)[OF e1] have a: "Suc n \<le> n1" "mset (item_oids ni) = {#n#} + mset [Suc n..<n1]"
    by (simp_all del: mset_upt)
  from nested(4)[OF e1 e2] have b: "n1 \<le> n'"
    "mset (item_oids item') = mset (item_oids item) + mset (item_oids ni) + mset [n1..<n']"
    by (simp_all add: Item_set_oids del: mset_upt)
  have h: "mset [n..<n1] = {#n#} + mset [Suc n..<n1]"
    using a(1) by (simp add: upt_conv_Cons del: mset_upt)
  from a b show ?case
    by (simp add: mset_upt_split[of n n1 n'] h del: mset_upt)
next
  case (plain c rest item n)
  from plain(1,2,5) obtain u1 item2 n1 u2 where
    e1: "extract_item c (foldl (\<lambda>it i. Item_set it i (property_value c)) item
                       (py_split CHR '' '' (the (attr c ''itemprop'')))) n = Inr (u1, item2, n1)" and
    e2: "extract_children rest item2 n1 = Inr (u2, item', n')"
    by (rule extract_children_plainE)
  from plain(3)[OF e1] plain(4)[OF e1 e2] show ?case
    by (simp add: mset_upt_split[of n n1 n'] foldl_set_oids del: mset_upt)
next
  case (unlinked c rest item n)
  from unlinked(1,2,4) obtain u2 where
    e2: "extract_children rest item n = Inr (u2, item', n')"
    by (rule extract_children_unlinkedE)
  from unlinked(3)[OF e2] show ?case .
next
  case (transparent c rest item n)
  from transparent(1,2,5) obtain u1 item1 n1 u2 where
    e1: "extract_item c item n = Inr (u1, item1, n1)" and
    e2: "extract_children rest item1 n1 = Inr (u2, item', n')"
    by (rule extract_children_transparentE)
  from transparent(3)[OF e1] transparent(4)[OF e1 e2] show ?case
    by (simp add: mset_upt_split[of n n1 n'] del: mset_upt)
qed

section \<open>The search for items, branch by branch\<close>

lemma find_items_scoped:
  assumes "is_itemscope e"
  shows "find_items e n =
    (case extract_item e (Item_init n (attr e ''itemtype'') (attr e ''itemid'')) (Suc n) of
       Inl err \<Rightarrow> Inl err
     | Inr (unlinked, item', n1) \<Rightarrow>
        (case find_items_each unlinked n1 of
           Inl err \<Rightarrow> Inl err
         | Inr (items, n2) \<Rightarrow> Inr (item' # items, n2)))"
  using assms by (subst find_items.simps) (simp add: is_element_def make_item_Inr)

lemma find_items_unscoped:
  assumes "\<not> is_itemscope e"
  shows "find_items e n = find_items_each (iterchildren e) n"
  using assms by (subst find_items.simps) simp

declare find_items.simps [simp del]

lemma find_items_induct [case_names scoped unscoped Nil Cons]:
  fixes P :: "node \<Rightarrow> nat \<Rightarrow> bool" and Q :: "node list \<Rightarrow> nat \<Rightarrow> bool"
  assumes S: "\<And>e n. \<lbrakk>is_itemscope e;
         \<And>unlinked item' n1.
           extract_item e (Item_init n (attr e ''itemtype'') (attr e ''itemid'')) (Suc n)
             = Inr (unlinked, item', n1) \<Longrightarrow> Q unlinked n1\<rbrakk> \<Longrightarrow> P e n"
    and U: "\<And>e n. \<lbrakk>\<not> is_itemscope e; Q (iterchildren e) n\<rbrakk> \<Longrightarrow> P e n"
    and E: "\<And>n. Q [] n"
    and C: "\<And>c cs n. \<lbrakk>P c n; \<And>xs n1. find_items c n = Inr (xs, n1) \<Longrightarrow> Q cs n1\<rbrakk>
              \<Longrightarrow> Q (c # cs) n"
  shows "P e n" and "Q cs n"
proof (induction e n and cs n rule: find_items_find_items_each.induct)
  case (1 e n)
  show ?case
  proof (cases "is_itemscope e")
    case True
    show ?thesis
    proof (rule S[OF True])
      fix unlinked item' n1
      assume e1: "extract_item e (Item_init n (attr e ''itemtype'') (attr e ''itemid'')) (Suc n)
             = Inr (unlinked, item', n1)"
      show "Q unlinked n1"
        using "1.IH"(1)[OF _ make_item_Inr[OF True] e1 refl refl] True
        by (simp add: is_element_def)
    qed
  next
    case False
    then show ?thesis using "1.IH"(2) by (intro U) simp_all
  qed
next
  case (2 n)
  show ?case by (rule E)
next
  case (3 c cs n)
  show ?case
  proof (rule C)
    show "P c n" by (rule "3.IH"(1))
  next
    fix xs n1
    assume "find_items c n = Inr (xs, n1)"
    then show "Q cs n1" using "3.IH"(2)[OF _ refl] by simp
  qed
qed

lemma find_items_each_Cons:
  "find_items_each (c # cs) n =
     (case find_items c n of
        Inl err \<Rightarrow> Inl err
      | Inr (xs, n1) \<Rightarrow>
         (case find_items_each cs n1 of
            Inl err \<Rightarrow> Inl err
          | Inr (ys, n2) \<Rightarrow> Inr (xs @ ys, n2)))"
  by simp

declare find_items_each.simps(2) [simp del]

lemma find_items_scopedE:
  assumes "is_itemscope e" and "find_items e n = Inr (items, n')"
  obtains unlinked item' n1 rest where
    "extract_item e (Item_init n (attr e ''itemtype'') (attr e ''itemid'')) (Suc n)
       = Inr (unlinked, item', n1)"
    "find_items_each unlinked n1 = Inr (rest, n')"
    "items = item' # rest"
  using assms(2) unfolding find_items_scoped[OF assms(1)]
  by (auto simp: sum_bind_Inr)

lemma find_items_each_ConsE:
  assumes "find_items_each (c # cs) n = Inr (items, n')"
  obtains xs n1 ys where
    "find_items c n = Inr (xs, n1)" "find_items_each cs n1 = Inr (ys, n')" "items = xs @ ys"
  using assms unfolding find_items_each_Cons
  by (auto simp: sum_bind_Inr)

lemma find_items_total:
  "\<exists>items n'. find_items e n = Inr (items, n')"
  "\<exists>items n'. find_items_each cs n = Inr (items, n')"
proof (induction e n and cs n rule: find_items_induct)
  case (scoped e n)
  obtain unlinked item' n1 where e1:
    "extract_item e (Item_init n (attr e ''itemtype'') (attr e ''itemid'')) (Suc n)
       = Inr (unlinked, item', n1)"
    using extract_total(1) by blast
  from scoped(2)[OF e1] obtain rest n2 where "find_items_each unlinked n1 = Inr (rest, n2)"
    by blast
  with e1 show ?case by (simp add: find_items_scoped[OF scoped(1)])
next
  case (unscoped e n)
  then show ?case by (simp add: find_items_unscoped)
next
  case (Nil n)
  then show ?case by simp
next
  case (Cons c cs n)
  from Cons(1) obtain xs n1 where f1: "find_items c n = Inr (xs, n1)" by blast
  from Cons(2)[OF f1] obtain ys n2 where "find_items_each cs n1 = Inr (ys, n2)" by blast
  with f1 show ?case by (simp add: find_items_each_Cons)
qed

lemma find_items_oids:
  "find_items e n = Inr (items, n') \<Longrightarrow>
     n \<le> n' \<and> mset (concat (map item_oids items)) = mset [n..<n']"
  "find_items_each cs n = Inr (items, n') \<Longrightarrow>
     n \<le> n' \<and> mset (concat (map item_oids items)) = mset [n..<n']"
proof (induction e n and cs n arbitrary: items n' and items n' rule: find_items_induct)
  case (scoped e n)
  from scoped(1,3) obtain unlinked item' n1 rest where
    e1: "extract_item e (Item_init n (attr e ''itemtype'') (attr e ''itemid'')) (Suc n)
       = Inr (unlinked, item', n1)" and
    f: "find_items_each unlinked n1 = Inr (rest, n')" and
    i: "items = item' # rest"
    by (rule find_items_scopedE)
  from extract_oids(1)[OF e1] have a: "Suc n \<le> n1"
    "mset (item_oids item') = {#n#} + mset [Suc n..<n1]"
    by (simp_all del: mset_upt)
  from scoped(2)[OF e1 f] have b: "n1 \<le> n'"
    "mset (concat (map item_oids rest)) = mset [n1..<n']" by simp_all
  have h: "mset [n..<n1] = {#n#} + mset [Suc n..<n1]"
    using a(1) by (simp add: upt_conv_Cons del: mset_upt)
  from a b i show ?case
    by (simp add: mset_upt_split[of n n1 n'] h del: mset_upt)
next
  case (unscoped e n)
  then show ?case by (simp add: find_items_unscoped)
next
  case (Nil n)
  then show ?case by simp
next
  case (Cons c cs n)
  from Cons(3) obtain xs n1 ys where
    f1: "find_items c n = Inr (xs, n1)" and f2: "find_items_each cs n1 = Inr (ys, n')" and
    i: "items = xs @ ys"
    by (rule find_items_each_ConsE)
  from Cons(1)[OF f1] Cons(2)[OF f1 f2] i show ?case
    by (simp add: mset_upt_split[of n n1 n'] del: mset_upt)
qed

lemma extract_appends:
  "extract_item e item n = Inr (u, item', n') \<Longrightarrow>
     \<exists>later. Item_get_all item' k = Item_get_all item k @ later"
  "extract_children cs item n = Inr (u, item', n') \<Longrightarrow>
     \<exists>later. Item_get_all item' k = Item_get_all item k @ later"
proof (induction e item n and cs item n arbitrary: u item' n' and u item' n' rule: extract_induct)
  case (Node t a x l cs item n)
  then show ?case by simp
next
  case (Nil item n)
  then show ?case by simp
next
  case (nested c rest item n)
  from nested(1,2,5) obtain u1 ni n1 u2 where
    e1: "extract_item c (Item_init n (attr c ''itemtype'') (attr c ''itemid'')) (Suc n)
           = Inr (u1, ni, n1)" and
    e2: "extract_children rest (Item_set item (the (attr c ''itemprop'')) (PItem ni)) n1
           = Inr (u2, item', n')"
    by (rule extract_children_nestedE)
  from nested(4)[OF e1 e2] show ?case by (auto simp: Item_get_all_set)
next
  case (plain c rest item n)
  from plain(1,2,5) obtain u1 item2 n1 u2 where
    e1: "extract_item c (foldl (\<lambda>it i. Item_set it i (property_value c)) item
                       (py_split CHR '' '' (the (attr c ''itemprop'')))) n = Inr (u1, item2, n1)" and
    e2: "extract_children rest item2 n1 = Inr (u2, item', n')"
    by (rule extract_children_plainE)
  from plain(3)[OF e1] plain(4)[OF e1 e2] show ?case
    by (auto simp: Item_get_all_foldl_set)
next
  case (unlinked c rest item n)
  from unlinked(1,2,4) obtain u2 where
    e2: "extract_children rest item n = Inr (u2, item', n')"
    by (rule extract_children_unlinkedE)
  from unlinked(3)[OF e2] show ?case .
next
  case (transparent c rest item n)
  from transparent(1,2,5) obtain u1 item1 n1 u2 where
    e1: "extract_item c item n = Inr (u1, item1, n1)" and
    e2: "extract_children rest item1 n1 = Inr (u2, item', n')"
    by (rule extract_children_transparentE)
  from transparent(3)[OF e1] transparent(4)[OF e1 e2] show ?case by auto
qed

lemma extract_unlinked_nodes:
  "extract_item e item n = Inr (u, item', n') \<Longrightarrow>
     \<forall>r \<in> set u. is_itemscope r \<and> \<not> truthy (attr r ''itemprop'')"
  "extract_children cs item n = Inr (u, item', n') \<Longrightarrow>
     \<forall>r \<in> set u. is_itemscope r \<and> \<not> truthy (attr r ''itemprop'')"
proof (induction e item n and cs item n arbitrary: u item' n' and u item' n' rule: extract_induct)
  case (Node t a x l cs item n)
  then show ?case by simp
next
  case (Nil item n)
  then show ?case by simp
next
  case (nested c rest item n)
  from nested(1,2,5) obtain u1 ni n1 u2 where
    e1: "extract_item c (Item_init n (attr c ''itemtype'') (attr c ''itemid'')) (Suc n)
           = Inr (u1, ni, n1)" and
    e2: "extract_children rest (Item_set item (the (attr c ''itemprop'')) (PItem ni)) n1
           = Inr (u2, item', n')" and u: "u = u1 @ u2"
    by (rule extract_children_nestedE)
  from nested(3)[OF e1] nested(4)[OF e1 e2] u show ?case by auto
next
  case (plain c rest item n)
  from plain(1,2,5) obtain u1 item2 n1 u2 where
    e1: "extract_item c (foldl (\<lambda>it i. Item_set it i (property_value c)) item
                       (py_split CHR '' '' (the (attr c ''itemprop'')))) n = Inr (u1, item2, n1)" and
    e2: "extract_children rest item2 n1 = Inr (u2, item', n')" and u: "u = u1 @ u2"
    by (rule extract_children_plainE)
  from plain(3)[OF e1] plain(4)[OF e1 e2] u show ?case by auto
next
  case (unlinked c rest item n)
  from unlinked(1,2,4) obtain u2 where
    e2: "extract_children rest item n = Inr (u2, item', n')" and u: "u = c # u2"
    by (rule extract_children_unlinkedE)
  from unlinked(3)[OF e2] unlinked(1,2) u show ?case by auto
next
  case (transparent c rest item n)
  from transparent(1,2,5) obtain u1 item1 n1 u2 where
    e1: "extract_item c item n = Inr (u1, item1, n1)" and
    e2: "extract_children rest item1 n1 = Inr (u2, item', n')" and u: "u = u1 @ u2"
    by (rule extract_children_transparentE)
  from transparent(3)[OF e1] transparent(4)[OF e1 e2] u show ?case by auto
qed

lemma dict_append_ok:
  assumes "\<forall>(k, vs) \<in> set d. vs \<noteq> [] \<and> (\<forall>v \<in> set vs. value_ok v)" "value_ok v"
  shows "\<forall>(k, vs) \<in> set (dict_append d name v). vs \<noteq> [] \<and> (\<forall>v \<in> set vs. value_ok v)"
  using assms by (induction d name v rule: dict_append.induct) auto

lemma Item_set_ok: "item_ok it \<Longrightarrow> value_ok v \<Longrightarrow> item_ok (Item_set it name v)"
  using dict_append_ok by (cases it) (simp add: Item_set_def)

lemma Item_init_ok [simp]: "item_ok (Item_init n t d)"
  by (simp add: Item_init_def)

lemma property_value_ok [simp]: "value_ok (property_value e)"
  by (simp add: property_value_def Let_def of_str_def split: option.splits)

lemma foldl_set_ok:
  "item_ok it \<Longrightarrow> value_ok v \<Longrightarrow> item_ok (foldl (\<lambda>it i. Item_set it i v) it names)"
  by (induction names arbitrary: it) (auto simp: Item_set_ok)

lemma extract_ok:
  "extract_item e item n = Inr (u, item', n') \<Longrightarrow> item_ok item \<Longrightarrow> item_ok item'"
  "extract_children cs item n = Inr (u, item', n') \<Longrightarrow> item_ok item \<Longrightarrow> item_ok item'"
proof (induction e item n and cs item n arbitrary: u item' n' and u item' n' rule: extract_induct)
  case (Node t a x l cs item n)
  then show ?case by simp
next
  case (Nil item n)
  then show ?case by simp
next
  case (nested c rest item n)
  from nested(1,2,5) obtain u1 ni n1 u2 where
    e1: "extract_item c (Item_init n (attr c ''itemtype'') (attr c ''itemid'')) (Suc n)
           = Inr (u1, ni, n1)" and
    e2: "extract_children rest (Item_set item (the (attr c ''itemprop'')) (PItem ni)) n1
           = Inr (u2, item', n')"
    by (rule extract_children_nestedE)
  from nested(3)[OF e1] have "item_ok ni" by simp
  with nested(4)[OF e1 e2] nested(6) show ?case by (simp add: Item_set_ok)
next
  case (plain c rest item n)
  from plain(1,2,5) obtain u1 item2 n1 u2 where
    e1: "extract_item c (foldl (\<lambda>it i. Item_set it i (property_value c)) item
                       (py_split CHR '' '' (the (attr c ''itemprop'')))) n = Inr (u1, item2, n1)" and
    e2: "extract_children rest item2 n1 = Inr (u2, item', n')"
    by (rule extract_children_plainE)
  from plain(3)[OF e1] plain(4)[OF e1 e2] plain(6) show ?case
    by (simp add: foldl_set_ok)
next
  case (unlinked c rest item n)
  from unlinked(1,2,4) obtain u2 where
    e2: "extract_children rest item n = Inr (u2, item', n')"
    by (rule extract_children_unlinkedE)
  from unlinked(3)[OF e2] unlinked(5) show ?case .
next
  case (transparent c rest item n)
  from transparent(1,2,5) obtain u1 item1 n1 u2 where
    e1: "extract_item c item n = Inr (u1, item1, n1)" and
    e2: "extract_children rest item1 n1 = Inr (u2, item', n')"
    by (rule extract_children_transparentE)
  from transparent(3)[OF e1] transparent(4)[OF e1 e2] transparent(6) show ?case by simp
qed

lemma find_items_ok:
  "find_items e n = Inr (items, n') \<Longrightarrow> \<forall>it \<in> set items. item_ok it"
  "find_items_each cs n = Inr (items, n') \<Longrightarrow> \<forall>it \<in> set items. item_ok it"
proof (induction e n and cs n arbitrary: items n' and items n' rule: find_items_induct)
  case (scoped e n)
  from scoped(1,3) obtain unlinked item' n1 rest where
    e1: "extract_item e (Item_init n (attr e ''itemtype'') (attr e ''itemid'')) (Suc n)
       = Inr (unlinked, item', n1)" and
    f: "find_items_each unlinked n1 = Inr (rest, n')" and
    i: "items = item' # rest"
    by (rule find_items_scopedE)
  from extract_ok(1)[OF e1] scoped(2)[OF e1 f] i show ?case by simp
next
  case (unscoped e n)
  then show ?case by (simp add: find_items_unscoped)
next
  case (Nil n)
  then show ?case by simp
next
  case (Cons c cs n)
  from Cons(3) obtain xs n1 ys where
    f1: "find_items c n = Inr (xs, n1)" and f2: "find_items_each cs n1 = Inr (ys, n')" and
    i: "items = xs @ ys"
    by (rule find_items_each_ConsE)
  from Cons(1)[OF f1] Cons(2)[OF f1 f2] i show ?case by auto
qed

lemma find_items_none:
  "itemscope_free e \<Longrightarrow> find_items e n = Inr ([], n)"
  "(\<forall>c \<in> set cs. itemscope_free c) \<Longrightarrow> find_items_each cs n = Inr ([], n)"
proof (induction e n and cs n rule: find_items_induct)
  case (scoped e n)
  then show ?case by (cases e) simp
next
  case (unscoped e n)
  then show ?case by (cases e) (simp add: find_items_unscoped)
next
  case (Nil n)
  then show ?case by simp
next
  case (Cons c cs n)
  then show ?case by (simp add: find_items_each_Cons)
qed

lemma extract_children_append:
  assumes "extract_children xs item n = Inr (u1, item1, n1)"
    and "extract_children ys item1 n1 = Inr (u2, item2, n2)"
  shows "extract_children (xs @ ys) item n = Inr (u1 @ u2, item2, n2)"
  using assms
proof (induction xs arbitrary: item n u1)
  case Nil
  then show ?case by simp
next
  case (Cons c xs)
  consider (nested) "truthy (attr c ''itemprop'')" "is_itemscope c"
    | (plain) "truthy (attr c ''itemprop'')" "\<not> is_itemscope c"
    | (unlinked) "\<not> truthy (attr c ''itemprop'')" "is_itemscope c"
    | (transparent) "\<not> truthy (attr c ''itemprop'')" "\<not> is_itemscope c"
    by blast
  then show ?case
  proof cases
    case nested
    from nested Cons(2) obtain v1 ni m1 v2 where
      e1: "extract_item c (Item_init n (attr c ''itemtype'') (attr c ''itemid'')) (Suc n)
             = Inr (v1, ni, m1)" and
      e2: "extract_children xs (Item_set item (the (attr c ''itemprop'')) (PItem ni)) m1
             = Inr (v2, item1, n1)" and u: "u1 = v1 @ v2"
      by (rule extract_children_nestedE)
    from Cons(1)[OF e2 Cons(3)] e1 u show ?thesis
      by (simp add: extract_children_nested[OF nested])
  next
    case plain
    from plain Cons(2) obtain v1 it2 m1 v2 where
      e1: "extract_item c (foldl (\<lambda>it i. Item_set it i (property_value c)) item
                       (py_split CHR '' '' (the (attr c ''itemprop'')))) n = Inr (v1, it2, m1)" and
      e2: "extract_children xs it2 m1 = Inr (v2, item1, n1)" and u: "u1 = v1 @ v2"
      by (rule extract_children_plainE)
    from Cons(1)[OF e2 Cons(3)] e1 u show ?thesis
      by (simp add: extract_children_plain[OF plain])
  next
    case unlinked
    from unlinked Cons(2) obtain v2 where
      e2: "extract_children xs item n = Inr (v2, item1, n1)" and u: "u1 = c # v2"
      by (rule extract_children_unlinkedE)
    from Cons(1)[OF e2 Cons(3)] u show ?thesis
      by (simp add: extract_children_unlinked[OF unlinked])
  next
    case transparent
    from transparent Cons(2) obtain v1 it1 m1 v2 where
      e1: "extract_item c item n = Inr (v1, it1, m1)" and
      e2: "extract_children xs it1 m1 = Inr (v2, item1, n1)" and u: "u1 = v1 @ v2"
      by (rule extract_children_transparentE)
    from Cons(1)[OF e2 Cons(3)] e1 u show ?thesis
      by (simp add: extract_children_transparent[OF transparent])
  qed
qed

lemma mapped_attr_not_empty: "map_of property_values t = Some a \<Longrightarrow> a \<noteq> []"
  by (auto simp: property_values_def split: if_splits)

lemma dict_append_nonempty:
  "\<forall>(k, vs) \<in> set d. vs \<noteq> [] \<Longrightarrow> \<forall>(k, vs) \<in> set (dict_append d name v). vs \<noteq> []"
  by (induction d name v rule: dict_append.induct) auto

lemma plain_child_values:
  assumes "truthy (attr c ''itemprop'')" "\<not> is_itemscope c"
    and "extract_children (c # rest) item n = Inr (u, item', n')"
  shows "\<exists>later. Item_get_all item' name =
           Item_get_all item name
           @ replicate (count_list (py_split CHR '' '' (the (attr c ''itemprop''))) name)
               (property_value c)
           @ later"
proof -
  from assms obtain u1 item2 n1 u2 where
    e1: "extract_item c (foldl (\<lambda>it i. Item_set it i (property_value c)) item
                       (py_split CHR '' '' (the (attr c ''itemprop'')))) n = Inr (u1, item2, n1)" and
    e2: "extract_children rest item2 n1 = Inr (u2, item', n')"
    by (rule extract_children_plainE)
  from extract_appends(1)[OF e1, of name] extract_appends(2)[OF e2, of name]
  show ?thesis by (auto simp: Item_get_all_foldl_set)
qed

section \<open>Document order\<close>

lemma descendants_children:
  "descendants e = concat (map (\<lambda>c. c # descendants c) (iterchildren e))"
  by (cases e) simp

section \<open>The Items inside an Item\<close>

lemma all_items_oids:
  "map oid (all_items it) = item_oids it"
  "map oid (value_items v) = value_oids v"
  by (induction it and v rule: all_items_value_items.induct)
     (auto simp: map_concat intro!: arg_cong[where f = concat])

lemma all_items_Cons: "all_items it = it # nested_items it"
  by (cases it) (simp add: nested_items_def)

lemma nested_items_Item:
  "nested_items (Item i t d ps) = concat (map (\<lambda>(k, vs). concat (map value_items vs)) ps)"
  by (simp add: nested_items_def)

lemma dict_append_items:
  "set (concat (map (\<lambda>(k, vs). concat (map value_items vs)) (dict_append d name v)))
     = set (concat (map (\<lambda>(k, vs). concat (map value_items vs)) d)) \<union> set (value_items v)"
  by (induction d name v rule: dict_append.induct) auto

lemma Item_set_nested:
  "set (nested_items (Item_set it name v)) = set (nested_items it) \<union> set (value_items v)"
  by (cases it) (simp only: Item_set_def nested_items_Item item.sel dict_append_items)

lemma foldl_set_nested:
  "value_items v = [] \<Longrightarrow>
   set (nested_items (foldl (\<lambda>it i. Item_set it i v) it names)) = set (nested_items it)"
  by (induction names arbitrary: it) (auto simp: Item_set_nested)

lemma property_value_items [simp]: "value_items (property_value e) = []"
  by (simp add: property_value_def Let_def of_str_def split: option.splits)

lemma extract_nested_mono:
  "extract_item e item n = Inr (u, item', n') \<Longrightarrow>
     set (nested_items item) \<subseteq> set (nested_items item')"
  "extract_children cs item n = Inr (u, item', n') \<Longrightarrow>
     set (nested_items item) \<subseteq> set (nested_items item')"
proof (induction e item n and cs item n arbitrary: u item' n' and u item' n' rule: extract_induct)
  case (Node t a x l cs item n)
  then show ?case by simp
next
  case (Nil item n)
  then show ?case by simp
next
  case (nested c rest item n)
  from nested(1,2,5) obtain u1 ni n1 u2 where
    e1: "extract_item c (Item_init n (attr c ''itemtype'') (attr c ''itemid'')) (Suc n)
           = Inr (u1, ni, n1)" and
    e2: "extract_children rest (Item_set item (the (attr c ''itemprop'')) (PItem ni)) n1
           = Inr (u2, item', n')"
    by (rule extract_children_nestedE)
  from nested(4)[OF e1 e2] show ?case by (auto simp: Item_set_nested)
next
  case (plain c rest item n)
  from plain(1,2,5) obtain u1 item2 n1 u2 where
    e1: "extract_item c (foldl (\<lambda>it i. Item_set it i (property_value c)) item
                       (py_split CHR '' '' (the (attr c ''itemprop'')))) n = Inr (u1, item2, n1)" and
    e2: "extract_children rest item2 n1 = Inr (u2, item', n')"
    by (rule extract_children_plainE)
  from plain(3)[OF e1] plain(4)[OF e1 e2] show ?case
    by (auto simp: foldl_set_nested)
next
  case (unlinked c rest item n)
  from unlinked(1,2,4) obtain u2 where
    e2: "extract_children rest item n = Inr (u2, item', n')"
    by (rule extract_children_unlinkedE)
  from unlinked(3)[OF e2] show ?case .
next
  case (transparent c rest item n)
  from transparent(1,2,5) obtain u1 item1 n1 u2 where
    e1: "extract_item c item n = Inr (u1, item1, n1)" and
    e2: "extract_children rest item1 n1 = Inr (u2, item', n')"
    by (rule extract_children_transparentE)
  from transparent(3)[OF e1] transparent(4)[OF e1 e2] show ?case by auto
qed

lemma item_of_extracted:
  assumes "is_itemscope c"
    and "extract_item c (Item_init m (attr c ''itemtype'') (attr c ''itemid'')) (Suc m)
           = Inr (u, it, k)"
  shows "item_of c it"
proof -
  from extract_attrs(1)[OF assms(2)] have "oid it = m" by (simp add: Item_init_def)
  with assms show ?thesis by (auto simp: item_of_def)
qed

lemma extract_keeps_value:
  "extract_item e item n = Inr (u, item', n') \<Longrightarrow> v \<in> set (Item_get_all item k)
     \<Longrightarrow> v \<in> set (Item_get_all item' k)"
  "extract_children cs item n = Inr (u, item', n') \<Longrightarrow> v \<in> set (Item_get_all item k)
     \<Longrightarrow> v \<in> set (Item_get_all item' k)"
  using extract_appends(1)[of e item n u item' n' k] extract_appends(2)[of cs item n u item' n' k]
  by auto

lemma value_in_props_nested:
  assumes "PItem nested \<in> set (Item_get_all it k)"
  shows "nested \<in> set (nested_items it)"
proof -
  obtain i t d ps where it: "it = Item i t d ps" by (cases it)
  from assms it obtain vs where "map_of ps k = Some vs" "PItem nested \<in> set vs"
    by (cases "map_of ps k") (auto simp: Item_get_all_def)
  then have "(k, vs) \<in> set ps" by (auto dest: map_of_SomeD)
  with \<open>PItem nested \<in> set vs\<close> it show ?thesis
    by (auto simp: nested_items_Item all_items_Cons intro!: bexI[where x = "(k, vs)"]
        bexI[where x = "PItem nested"])
qed

lemma extract_direct_linked:
  "extract_item e item n = Inr (u, item', n') \<Longrightarrow>
     \<forall>c \<in> set (direct_linked e). \<exists>nested. item_of c nested
        \<and> PItem nested \<in> set (Item_get_all item' (the (attr c ''itemprop'')))"
  "extract_children cs item n = Inr (u, item', n') \<Longrightarrow>
     \<forall>c \<in> set (concat (map (\<lambda>c. if is_itemscope c
                        then (if truthy (attr c ''itemprop'') then [c] else [])
                        else direct_linked c) cs)).
        \<exists>nested. item_of c nested
        \<and> PItem nested \<in> set (Item_get_all item' (the (attr c ''itemprop'')))"
proof (induction e item n and cs item n arbitrary: u item' n' and u item' n' rule: extract_induct)
  case (Node t a x l cs item n)
  then show ?case by simp
next
  case (Nil item n)
  then show ?case by simp
next
  case (nested c rest item n)
  from nested(1,2,5) obtain u1 ni n1 u2 where
    e1: "extract_item c (Item_init n (attr c ''itemtype'') (attr c ''itemid'')) (Suc n)
           = Inr (u1, ni, n1)" and
    e2: "extract_children rest (Item_set item (the (attr c ''itemprop'')) (PItem ni)) n1
           = Inr (u2, item', n')"
    by (rule extract_children_nestedE)
  have io: "item_of c ni" using nested(2) e1 by (rule item_of_extracted)
  have "PItem ni \<in> set (Item_get_all item' (the (attr c ''itemprop'')))"
    by (rule extract_keeps_value(2)[OF e2]) (simp add: Item_get_all_set)
  with io nested(4)[OF e1 e2] nested(1,2) show ?case by auto
next
  case (plain c rest item n)
  from plain(1,2,5) obtain u1 item2 n1 u2 where
    e1: "extract_item c (foldl (\<lambda>it i. Item_set it i (property_value c)) item
                       (py_split CHR '' '' (the (attr c ''itemprop'')))) n = Inr (u1, item2, n1)" and
    e2: "extract_children rest item2 n1 = Inr (u2, item', n')"
    by (rule extract_children_plainE)
  from plain(3)[OF e1] extract_keeps_value(2)[OF e2]
  have "\<forall>d \<in> set (direct_linked c). \<exists>nested. item_of d nested
        \<and> PItem nested \<in> set (Item_get_all item' (the (attr d ''itemprop'')))"
    by blast
  with plain(4)[OF e1 e2] plain(2) show ?case by auto
next
  case (unlinked c rest item n)
  from unlinked(1,2,4) obtain u2 where
    e2: "extract_children rest item n = Inr (u2, item', n')"
    by (rule extract_children_unlinkedE)
  from unlinked(3)[OF e2] unlinked(1,2) show ?case by auto
next
  case (transparent c rest item n)
  from transparent(1,2,5) obtain u1 item1 n1 u2 where
    e1: "extract_item c item n = Inr (u1, item1, n1)" and
    e2: "extract_children rest item1 n1 = Inr (u2, item', n')"
    by (rule extract_children_transparentE)
  from transparent(3)[OF e1] extract_keeps_value(2)[OF e2]
  have "\<forall>d \<in> set (direct_linked c). \<exists>nested. item_of d nested
        \<and> PItem nested \<in> set (Item_get_all item' (the (attr d ''itemprop'')))"
    by blast
  with transparent(4)[OF e1 e2] transparent(2) show ?case by auto
qed

lemma item_oids_Cons: "item_oids it = oid it # map oid (nested_items it)"
  using all_items_oids(1)[of it] by (simp add: all_items_Cons)

lemma nested_not_flat:
  assumes d: "distinct (concat (map item_oids items))"
    and ft: "flat \<in> set items" and i: "it \<in> set (nested_items flat)"
  shows "oid it \<notin> oid ` set items"
proof
  assume "oid it \<in> oid ` set items"
  then obtain flat' where ft': "flat' \<in> set items" and o: "oid it = oid flat'" by auto
  from d ft have dt: "distinct (item_oids flat)" by (auto simp: distinct_concat_iff)
  from i have in_flat: "oid it \<in> set (map oid (nested_items flat))" by simp
  from dt have ne: "oid flat \<notin> set (map oid (nested_items flat))"
    by (simp add: item_oids_Cons)
  show False
  proof (cases "item_oids flat = item_oids flat'")
    case True
    then have "oid flat = oid flat'" by (simp add: item_oids_Cons)
    with o in_flat ne show False by simp
  next
    case False
    with d ft ft' have "set (item_oids flat) \<inter> set (item_oids flat') = {}"
      by (auto simp: distinct_concat_iff)
    moreover have "oid it \<in> set (item_oids flat)" using in_flat by (simp add: item_oids_Cons)
    moreover have "oid it \<in> set (item_oids flat')" using o by (simp add: item_oids_Cons)
    ultimately show False by blast
  qed
qed

lemma oids_of_all_items:
  "map oid (concat (map all_items items)) = concat (map item_oids items)"
  by (induction items) (simp_all add: all_items_oids)

section \<open>Every itemscope element has its Item\<close>

text \<open>Every itemscope element below an element under extraction has its Item nested in the
  Item being filled, or lies in the subtree of an unlinked element.\<close>

lemma extract_complete:
  "extract_item e item n = Inr (u, item', n') \<Longrightarrow>
     \<forall>r \<in> set (descendants e). is_itemscope r \<longrightarrow>
       (\<exists>it \<in> set (nested_items item'). item_of r it)
       \<or> r \<in> set (concat (map (\<lambda>c. c # descendants c) u))"
  "extract_children cs item n = Inr (u, item', n') \<Longrightarrow>
     \<forall>r \<in> set (concat (map (\<lambda>c. c # descendants c) cs)). is_itemscope r \<longrightarrow>
       (\<exists>it \<in> set (nested_items item'). item_of r it)
       \<or> r \<in> set (concat (map (\<lambda>c. c # descendants c) u))"
proof (induction e item n and cs item n arbitrary: u item' n' and u item' n' rule: extract_induct)
  case (Node t a x l cs item n)
  then show ?case by simp
next
  case (Nil item n)
  then show ?case by simp
next
  case (nested c rest item n)
  from nested(1,2,5) obtain u1 ni n1 u2 where
    e1: "extract_item c (Item_init n (attr c ''itemtype'') (attr c ''itemid'')) (Suc n)
           = Inr (u1, ni, n1)" and
    e2: "extract_children rest (Item_set item (the (attr c ''itemprop'')) (PItem ni)) n1
           = Inr (u2, item', n')" and u: "u = u1 @ u2"
    by (rule extract_children_nestedE)
  have sub: "set (all_items ni) \<subseteq> set (nested_items item')"
    using extract_nested_mono(2)[OF e2] by (auto simp: Item_set_nested)
  have io: "item_of c ni" using nested(2) e1 by (rule item_of_extracted)
  show ?case
  proof (intro ballI impI)
    fix r assume r: "r \<in> set (concat (map (\<lambda>c. c # descendants c) (c # rest)))"
      and s: "is_itemscope r"
    from r consider (self) "r = c" | (below) "r \<in> set (descendants c)"
      | (later) "r \<in> set (concat (map (\<lambda>c. c # descendants c) rest))"
      by auto
    then show "(\<exists>it \<in> set (nested_items item'). item_of r it)
       \<or> r \<in> set (concat (map (\<lambda>c. c # descendants c) u))"
    proof cases
      case self
      with io sub show ?thesis by (auto simp: all_items_Cons)
    next
      case below
      with nested(3)[OF e1] s
      have "(\<exists>it \<in> set (nested_items ni). item_of r it)
            \<or> r \<in> set (concat (map (\<lambda>c. c # descendants c) u1))" by blast
      with sub u show ?thesis by (auto simp: all_items_Cons)
    next
      case later
      with nested(4)[OF e1 e2] s u show ?thesis by auto
    qed
  qed
next
  case (plain c rest item n)
  from plain(1,2,5) obtain u1 item2 n1 u2 where
    e1: "extract_item c (foldl (\<lambda>it i. Item_set it i (property_value c)) item
                       (py_split CHR '' '' (the (attr c ''itemprop'')))) n = Inr (u1, item2, n1)" and
    e2: "extract_children rest item2 n1 = Inr (u2, item', n')" and u: "u = u1 @ u2"
    by (rule extract_children_plainE)
  note sub = extract_nested_mono(2)[OF e2]
  show ?case
  proof (intro ballI impI)
    fix r assume r: "r \<in> set (concat (map (\<lambda>c. c # descendants c) (c # rest)))"
      and s: "is_itemscope r"
    from r s plain(2) consider (below) "r \<in> set (descendants c)"
      | (later) "r \<in> set (concat (map (\<lambda>c. c # descendants c) rest))"
      by auto
    then show "(\<exists>it \<in> set (nested_items item'). item_of r it)
       \<or> r \<in> set (concat (map (\<lambda>c. c # descendants c) u))"
    proof cases
      case below
      with plain(3)[OF e1] s
      have "(\<exists>it \<in> set (nested_items item2). item_of r it)
            \<or> r \<in> set (concat (map (\<lambda>c. c # descendants c) u1))" by blast
      with sub u show ?thesis by auto
    next
      case later
      with plain(4)[OF e1 e2] s u show ?thesis by auto
    qed
  qed
next
  case (unlinked c rest item n)
  from unlinked(1,2,4) obtain u2 where
    e2: "extract_children rest item n = Inr (u2, item', n')" and u: "u = c # u2"
    by (rule extract_children_unlinkedE)
  from unlinked(3)[OF e2] u show ?case by auto
next
  case (transparent c rest item n)
  from transparent(1,2,5) obtain u1 item1 n1 u2 where
    e1: "extract_item c item n = Inr (u1, item1, n1)" and
    e2: "extract_children rest item1 n1 = Inr (u2, item', n')" and u: "u = u1 @ u2"
    by (rule extract_children_transparentE)
  note sub = extract_nested_mono(2)[OF e2]
  show ?case
  proof (intro ballI impI)
    fix r assume r: "r \<in> set (concat (map (\<lambda>c. c # descendants c) (c # rest)))"
      and s: "is_itemscope r"
    from r s transparent(2) consider (below) "r \<in> set (descendants c)"
      | (later) "r \<in> set (concat (map (\<lambda>c. c # descendants c) rest))"
      by auto
    then show "(\<exists>it \<in> set (nested_items item'). item_of r it)
       \<or> r \<in> set (concat (map (\<lambda>c. c # descendants c) u))"
    proof cases
      case below
      with transparent(3)[OF e1] s
      have "(\<exists>it \<in> set (nested_items item1). item_of r it)
            \<or> r \<in> set (concat (map (\<lambda>c. c # descendants c) u1))" by blast
      with sub u show ?thesis by auto
    next
      case later
      with transparent(4)[OF e1 e2] s u show ?thesis by auto
    qed
  qed
qed

lemma find_items_complete:
  "find_items e n = Inr (items, n') \<Longrightarrow>
     \<forall>r \<in> set (e # descendants e). is_itemscope r \<longrightarrow>
       (\<exists>it \<in> set (concat (map all_items items)). item_of r it)"
  "find_items_each cs n = Inr (items, n') \<Longrightarrow>
     \<forall>r \<in> set (concat (map (\<lambda>c. c # descendants c) cs)). is_itemscope r \<longrightarrow>
       (\<exists>it \<in> set (concat (map all_items items)). item_of r it)"
proof (induction e n and cs n arbitrary: items n' and items n' rule: find_items_induct)
  case (scoped e n)
  from scoped(1,3) obtain unlinked item' n1 rest where
    e1: "extract_item e (Item_init n (attr e ''itemtype'') (attr e ''itemid'')) (Suc n)
       = Inr (unlinked, item', n1)" and
    f: "find_items_each unlinked n1 = Inr (rest, n')" and
    i: "items = item' # rest"
    by (rule find_items_scopedE)
  have io: "item_of e item'" using scoped(1) e1 by (rule item_of_extracted)
  show ?case
  proof (intro ballI impI)
    fix r assume r: "r \<in> set (e # descendants e)" and s: "is_itemscope r"
    show "\<exists>it \<in> set (concat (map all_items items)). item_of r it"
    proof (cases "r = e")
      case True
      with io i show ?thesis by (auto simp: all_items_Cons)
    next
      case False
      with r have "r \<in> set (descendants e)" by simp
      with extract_complete(1)[OF e1] s
      have "(\<exists>it \<in> set (nested_items item'). item_of r it)
            \<or> r \<in> set (concat (map (\<lambda>c. c # descendants c) unlinked))" by blast
      then show ?thesis
      proof
        assume "\<exists>it \<in> set (nested_items item'). item_of r it"
        with i show ?thesis by (auto simp: all_items_Cons)
      next
        assume "r \<in> set (concat (map (\<lambda>c. c # descendants c) unlinked))"
        with scoped(2)[OF e1 f] s
        have "\<exists>it \<in> set (concat (map all_items rest)). item_of r it" by blast
        with i show ?thesis by auto
      qed
    qed
  qed
next
  case (unscoped e n)
  from unscoped(3) have f: "find_items_each (iterchildren e) n = Inr (items, n')"
    by (simp add: find_items_unscoped[OF unscoped(1)])
  from unscoped(2)[OF f] unscoped(1) show ?case
    by (auto simp: descendants_children[symmetric])
next
  case (Nil n)
  then show ?case by simp
next
  case (Cons c cs n)
  from Cons(3) obtain xs n1 ys where
    f1: "find_items c n = Inr (xs, n1)" and f2: "find_items_each cs n1 = Inr (ys, n')" and
    i: "items = xs @ ys"
    by (rule find_items_each_ConsE)
  show ?case
  proof (intro ballI impI)
    fix r assume r: "r \<in> set (concat (map (\<lambda>c. c # descendants c) (c # cs)))"
      and s: "is_itemscope r"
    from r consider "r \<in> set (c # descendants c)"
      | "r \<in> set (concat (map (\<lambda>c. c # descendants c) cs))" by auto
    then show "\<exists>it \<in> set (concat (map all_items items)). item_of r it"
    proof cases
      case 1
      with Cons(1)[OF f1] s
      have "\<exists>it \<in> set (concat (map all_items xs)). item_of r it" by blast
      with i show ?thesis by auto
    next
      case 2
      with Cons(2)[OF f1 f2] s
      have "\<exists>it \<in> set (concat (map all_items ys)). item_of r it" by blast
      with i show ?thesis by auto
    qed
  qed
qed

lemma extract_count:
  "extract_item e item n = Inr (u, item', n') \<Longrightarrow>
     n + length (filter is_itemscope (descendants e))
       = n' + length (filter is_itemscope (concat (map (\<lambda>c. c # descendants c) u)))"
  "extract_children cs item n = Inr (u, item', n') \<Longrightarrow>
     n + length (filter is_itemscope (concat (map (\<lambda>c. c # descendants c) cs)))
       = n' + length (filter is_itemscope (concat (map (\<lambda>c. c # descendants c) u)))"
proof (induction e item n and cs item n arbitrary: u item' n' and u item' n' rule: extract_induct)
  case (Node t a x l cs item n)
  then show ?case by simp
next
  case (Nil item n)
  then show ?case by simp
next
  case (nested c rest item n)
  from nested(1,2,5) obtain u1 ni n1 u2 where
    e1: "extract_item c (Item_init n (attr c ''itemtype'') (attr c ''itemid'')) (Suc n)
           = Inr (u1, ni, n1)" and
    e2: "extract_children rest (Item_set item (the (attr c ''itemprop'')) (PItem ni)) n1
           = Inr (u2, item', n')" and u: "u = u1 @ u2"
    by (rule extract_children_nestedE)
  from nested(3)[OF e1] nested(4)[OF e1 e2] u nested(2) show ?case by simp
next
  case (plain c rest item n)
  from plain(1,2,5) obtain u1 item2 n1 u2 where
    e1: "extract_item c (foldl (\<lambda>it i. Item_set it i (property_value c)) item
                       (py_split CHR '' '' (the (attr c ''itemprop'')))) n = Inr (u1, item2, n1)" and
    e2: "extract_children rest item2 n1 = Inr (u2, item', n')" and u: "u = u1 @ u2"
    by (rule extract_children_plainE)
  from plain(3)[OF e1] plain(4)[OF e1 e2] u plain(2) show ?case by simp
next
  case (unlinked c rest item n)
  from unlinked(1,2,4) obtain u2 where
    e2: "extract_children rest item n = Inr (u2, item', n')" and u: "u = c # u2"
    by (rule extract_children_unlinkedE)
  from unlinked(3)[OF e2] u unlinked(2) show ?case by simp
next
  case (transparent c rest item n)
  from transparent(1,2,5) obtain u1 item1 n1 u2 where
    e1: "extract_item c item n = Inr (u1, item1, n1)" and
    e2: "extract_children rest item1 n1 = Inr (u2, item', n')" and u: "u = u1 @ u2"
    by (rule extract_children_transparentE)
  from transparent(3)[OF e1] transparent(4)[OF e1 e2] u transparent(2) show ?case by simp
qed

lemma find_items_count:
  "find_items e n = Inr (items, n') \<Longrightarrow>
     n' = n + length (filter is_itemscope (e # descendants e))"
  "find_items_each cs n = Inr (items, n') \<Longrightarrow>
     n' = n + length (filter is_itemscope (concat (map (\<lambda>c. c # descendants c) cs)))"
proof (induction e n and cs n arbitrary: items n' and items n' rule: find_items_induct)
  case (scoped e n)
  from scoped(1,3) obtain unlinked item' n1 rest where
    e1: "extract_item e (Item_init n (attr e ''itemtype'') (attr e ''itemid'')) (Suc n)
       = Inr (unlinked, item', n1)" and
    f: "find_items_each unlinked n1 = Inr (rest, n')"
    by (rule find_items_scopedE)
  from extract_count(1)[OF e1] scoped(2)[OF e1 f] scoped(1) show ?case by simp
next
  case (unscoped e n)
  from unscoped(3) have f: "find_items_each (iterchildren e) n = Inr (items, n')"
    by (simp add: find_items_unscoped[OF unscoped(1)])
  from unscoped(2)[OF f] unscoped(1) show ?case
    by (simp add: descendants_children[symmetric])
next
  case (Nil n)
  then show ?case by simp
next
  case (Cons c cs n)
  from Cons(3) obtain xs n1 ys where
    f1: "find_items c n = Inr (xs, n1)" and f2: "find_items_each cs n1 = Inr (ys, n')"
    by (rule find_items_each_ConsE)
  from Cons(1)[OF f1] Cons(2)[OF f1 f2] show ?case by simp
qed

section \<open>The elements of the flat list\<close>

lemma flat_roots_unlinked:
  assumes "is_itemscope r" "\<not> truthy (attr r ''itemprop'')"
  shows "flat_roots b r = r # concat (map (flat_roots True) (iterchildren r))"
  using assms by (cases r) simp

lemma flat_roots_scoped_top:
  assumes "is_itemscope r"
  shows "flat_roots False r = r # concat (map (flat_roots True) (iterchildren r))"
  using assms by (cases r) simp

lemma flat_roots_unscoped:
  assumes "\<not> is_itemscope r"
  shows "flat_roots b r = concat (map (flat_roots b) (iterchildren r))"
  using assms by (cases r) simp

lemma flat_roots_linked:
  assumes "truthy (attr r ''itemprop'')"
  shows "flat_roots True r = concat (map (flat_roots True) (iterchildren r))"
  using assms by (cases r) simp

lemma extract_flat_roots:
  "extract_item e item n = Inr (u, item', n') \<Longrightarrow>
     concat (map (flat_roots True) u) = concat (map (flat_roots True) (iterchildren e))"
  "extract_children cs item n = Inr (u, item', n') \<Longrightarrow>
     concat (map (flat_roots True) u) = concat (map (flat_roots True) cs)"
proof (induction e item n and cs item n arbitrary: u item' n' and u item' n' rule: extract_induct)
  case (Node t a x l cs item n)
  then show ?case by simp
next
  case (Nil item n)
  then show ?case by simp
next
  case (nested c rest item n)
  from nested(1,2,5) obtain u1 ni n1 u2 where
    e1: "extract_item c (Item_init n (attr c ''itemtype'') (attr c ''itemid'')) (Suc n)
           = Inr (u1, ni, n1)" and
    e2: "extract_children rest (Item_set item (the (attr c ''itemprop'')) (PItem ni)) n1
           = Inr (u2, item', n')" and u: "u = u1 @ u2"
    by (rule extract_children_nestedE)
  from nested(3)[OF e1] nested(4)[OF e1 e2] u show ?case
    by (simp add: flat_roots_linked[OF nested(1)])
next
  case (plain c rest item n)
  from plain(1,2,5) obtain u1 item2 n1 u2 where
    e1: "extract_item c (foldl (\<lambda>it i. Item_set it i (property_value c)) item
                       (py_split CHR '' '' (the (attr c ''itemprop'')))) n = Inr (u1, item2, n1)" and
    e2: "extract_children rest item2 n1 = Inr (u2, item', n')" and u: "u = u1 @ u2"
    by (rule extract_children_plainE)
  from plain(3)[OF e1] plain(4)[OF e1 e2] u show ?case
    by (simp add: flat_roots_linked[OF plain(1)])
next
  case (unlinked c rest item n)
  from unlinked(1,2,4) obtain u2 where
    e2: "extract_children rest item n = Inr (u2, item', n')" and u: "u = c # u2"
    by (rule extract_children_unlinkedE)
  from unlinked(3)[OF e2] u show ?case by simp
next
  case (transparent c rest item n)
  from transparent(1,2,5) obtain u1 item1 n1 u2 where
    e1: "extract_item c item n = Inr (u1, item1, n1)" and
    e2: "extract_children rest item1 n1 = Inr (u2, item', n')" and u: "u = u1 @ u2"
    by (rule extract_children_transparentE)
  from transparent(3)[OF e1] transparent(4)[OF e1 e2] u show ?case
    by (simp add: flat_roots_unscoped[OF transparent(2)])
qed

lemma unlinked_flat_roots_any:
  assumes "\<forall>r \<in> set u. is_itemscope r \<and> \<not> truthy (attr r ''itemprop'')"
  shows "concat (map (flat_roots False) u) = concat (map (flat_roots True) u)"
  using assms by (induction u) (auto simp: flat_roots_unlinked)

lemma find_items_flat_roots:
  "find_items e n = Inr (items, n') \<Longrightarrow> list_all2 item_of (flat_roots False e) items"
  "find_items_each cs n = Inr (items, n') \<Longrightarrow>
     list_all2 item_of (concat (map (flat_roots False) cs)) items"
proof (induction e n and cs n arbitrary: items n' and items n' rule: find_items_induct)
  case (scoped e n)
  from scoped(1,3) obtain unlinked item' n1 rest where
    e1: "extract_item e (Item_init n (attr e ''itemtype'') (attr e ''itemid'')) (Suc n)
       = Inr (unlinked, item', n1)" and
    f: "find_items_each unlinked n1 = Inr (rest, n')" and
    i: "items = item' # rest"
    by (rule find_items_scopedE)
  have io: "item_of e item'" using scoped(1) e1 by (rule item_of_extracted)
  have "concat (map (flat_roots False) unlinked) = concat (map (flat_roots True) (iterchildren e))"
    using unlinked_flat_roots_any[OF extract_unlinked_nodes(1)[OF e1]]
      extract_flat_roots(1)[OF e1] by simp
  with scoped(2)[OF e1 f] io i show ?case
    by (simp add: flat_roots_scoped_top[OF scoped(1)])
next
  case (unscoped e n)
  from unscoped(3) have f: "find_items_each (iterchildren e) n = Inr (items, n')"
    by (simp add: find_items_unscoped[OF unscoped(1)])
  from unscoped(2)[OF f] show ?case
    by (simp add: flat_roots_unscoped[OF unscoped(1)])
next
  case (Nil n)
  then show ?case by simp
next
  case (Cons c cs n)
  from Cons(3) obtain xs n1 ys where
    f1: "find_items c n = Inr (xs, n1)" and f2: "find_items_each cs n1 = Inr (ys, n')" and
    i: "items = xs @ ys"
    by (rule find_items_each_ConsE)
  from Cons(1)[OF f1] Cons(2)[OF f1 f2] i show ?case
    by (simp add: list_all2_appendI)
qed

lemma subseq_concat_map:
  "(\<And>c. c \<in> set cs \<Longrightarrow> subseq (f c) (g c)) \<Longrightarrow> subseq (concat (map f cs)) (concat (map g cs))"
proof (induction cs)
  case Nil
  then show ?case by simp
next
  case (Cons c cs)
  have "subseq (f c) (g c)" using Cons(2) by simp
  moreover have "subseq (concat (map f cs)) (concat (map g cs))" using Cons by simp
  ultimately have "subseq (f c @ concat (map f cs)) (g c @ concat (map g cs))"
    by (rule list_emb_append_mono)
  then show ?case by simp
qed

lemma flat_roots_order:
  "subseq (flat_roots b e) (e # descendants e)"
proof (induction b e rule: flat_roots.induct)
  case (1 inside t a x l cs)
  let ?e = "Node t a x l cs"
  have s: "subseq (concat (map (flat_roots (inside \<or> is_itemscope ?e)) cs)) (descendants ?e)"
    unfolding descendants.simps using 1 by (rule subseq_concat_map)
  show ?case
  proof (cases "is_itemscope ?e \<and> (\<not> inside \<or> \<not> truthy (attr ?e ''itemprop''))")
    case True
    then have "flat_roots inside ?e = ?e # concat (map (flat_roots (inside \<or> is_itemscope ?e)) cs)"
      by simp
    with s show ?thesis by (simp only: subseq_Cons2)
  next
    case False
    then have "flat_roots inside ?e = concat (map (flat_roots (inside \<or> is_itemscope ?e)) cs)"
      by simp
    with s show ?thesis by (simp only: list_emb_Cons)
  qed
qed

section \<open>The loop over the unlinked elements\<close>

lemma find_items_each_parts:
  "find_items_each cs n = Inr (items, n') \<Longrightarrow>
     \<exists>ks parts. length ks = Suc (length cs) \<and> length parts = length cs
        \<and> hd ks = n \<and> last ks = n' \<and> items = concat parts
        \<and> (\<forall>i < length cs. find_items (cs ! i) (ks ! i) = Inr (parts ! i, ks ! Suc i))"
proof (induction cs arbitrary: n items)
  case Nil
  then have "items = []" "n' = n" by simp_all
  then have "length [n] = Suc (length ([]::node list)) \<and> length ([]::item list list) = length ([]::node list)
        \<and> hd [n] = n \<and> last [n] = n' \<and> items = concat []
        \<and> (\<forall>i < length ([]::node list). find_items ([] ! i) ([n] ! i) = Inr ([] ! i, [n] ! Suc i))"
    by simp
  then show ?case by blast
next
  case (Cons c cs)
  from Cons(2) obtain xs n1 ys where
    f1: "find_items c n = Inr (xs, n1)" and f2: "find_items_each cs n1 = Inr (ys, n')" and
    i: "items = xs @ ys"
    by (rule find_items_each_ConsE)
  from Cons(1)[OF f2] obtain ks parts where
    k: "length ks = Suc (length cs)" "length parts = length cs" "hd ks = n1" "last ks = n'"
       "ys = concat parts"
       "\<forall>i < length cs. find_items (cs ! i) (ks ! i) = Inr (parts ! i, ks ! Suc i)"
    by blast
  from k(1) have kne: "ks \<noteq> []" by auto
  with k(3) have k0: "ks ! 0 = n1" by (simp add: hd_conv_nth)
  have "\<forall>i < length (c # cs).
          find_items ((c # cs) ! i) ((n # ks) ! i) = Inr ((xs # parts) ! i, (n # ks) ! Suc i)"
  proof (intro allI impI)
    fix i assume "i < length (c # cs)"
    then show "find_items ((c # cs) ! i) ((n # ks) ! i) = Inr ((xs # parts) ! i, (n # ks) ! Suc i)"
      using f1 k0 k(6) by (cases i) auto
  qed
  with k kne i have "length (n # ks) = Suc (length (c # cs)) \<and> length (xs # parts) = length (c # cs)
        \<and> hd (n # ks) = n \<and> last (n # ks) = n' \<and> items = concat (xs # parts)
        \<and> (\<forall>i < length (c # cs).
             find_items ((c # cs) ! i) ((n # ks) ! i) = Inr ((xs # parts) ! i, (n # ks) ! Suc i))"
    by simp
  then show ?case by blast
qed

lemma find_items_promotes:
  assumes "is_itemscope e"
  shows "\<exists>unlinked found ks parts.
           extract_item e (Item_init n (attr e ''itemtype'') (attr e ''itemid'')) (Suc n)
             = Inr (unlinked, found, hd ks)
         \<and> length ks = Suc (length unlinked) \<and> length parts = length unlinked
         \<and> (\<forall>i < length unlinked.
               find_items (unlinked ! i) (ks ! i) = Inr (parts ! i, ks ! Suc i)
               \<and> parts ! i \<noteq> [] \<and> item_of (unlinked ! i) (hd (parts ! i)))
         \<and> find_items e n = Inr (found # concat parts, last ks)"
proof -
  obtain unlinked found n1 where
    e1: "extract_item e (Item_init n (attr e ''itemtype'') (attr e ''itemid'')) (Suc n)
           = Inr (unlinked, found, n1)"
    using extract_total(1) by blast
  obtain rest n' where f: "find_items_each unlinked n1 = Inr (rest, n')"
    using find_items_total(2) by blast
  from find_items_each_parts[OF f] obtain ks parts where
    k: "length ks = Suc (length unlinked)" "length parts = length unlinked" "hd ks = n1"
       "last ks = n'" "rest = concat parts"
       "\<forall>i < length unlinked. find_items (unlinked ! i) (ks ! i) = Inr (parts ! i, ks ! Suc i)"
    by blast
  have each: "\<forall>i < length unlinked.
               find_items (unlinked ! i) (ks ! i) = Inr (parts ! i, ks ! Suc i)
               \<and> parts ! i \<noteq> [] \<and> item_of (unlinked ! i) (hd (parts ! i))"
  proof (intro allI impI)
    fix i assume i: "i < length unlinked"
    with k(6) have fi: "find_items (unlinked ! i) (ks ! i) = Inr (parts ! i, ks ! Suc i)" by blast
    from i extract_unlinked_nodes(1)[OF e1] have s: "is_itemscope (unlinked ! i)" by simp
    from s fi obtain ul it' m rs where
      x: "extract_item (unlinked ! i)
            (Item_init (ks ! i) (attr (unlinked ! i) ''itemtype'') (attr (unlinked ! i) ''itemid''))
            (Suc (ks ! i)) = Inr (ul, it', m)"
      and p: "parts ! i = it' # rs"
      by (rule find_items_scopedE)
    from item_of_extracted[OF s x] p fi
    show "find_items (unlinked ! i) (ks ! i) = Inr (parts ! i, ks ! Suc i)
               \<and> parts ! i \<noteq> [] \<and> item_of (unlinked ! i) (hd (parts ! i))"
      by simp
  qed
  have "find_items e n = Inr (found # concat parts, last ks)"
    using e1 f k(4,5) by (simp add: find_items_scoped[OF assms])
  with e1 k(1,2,3) each show ?thesis by blast
qed

section \<open>A property element, exactly\<close>

lemma dict_append_keys: "fst ` set (dict_append d name v) = insert name (fst ` set d)"
  by (induction d name v rule: dict_append.induct) auto

lemma Item_set_keys:
  "fst ` set (props (Item_set it name v)) = insert name (fst ` set (props it))"
  by (simp only: Item_set_def item.sel dict_append_keys)

lemma foldl_set_keys:
  "fst ` set (props (foldl (\<lambda>it i. Item_set it i v) it names))
     = fst ` set (props it) \<union> set names"
  by (induction names arbitrary: it) (simp_all add: Item_set_keys)

lemma extract_item_children: "extract_item c item n = extract_children (iterchildren c) item n"
  by (cases c) simp

lemma extract_children_append_eq:
  "extract_children (xs @ ys) item n =
     (case extract_children xs item n of
        Inl err \<Rightarrow> Inl err
      | Inr (u1, item1, n1) \<Rightarrow>
         (case extract_children ys item1 n1 of
            Inl err \<Rightarrow> Inl err
          | Inr (u2, item2, n2) \<Rightarrow> Inr (u1 @ u2, item2, n2)))"
proof -
  obtain u1 item1 n1 where a: "extract_children xs item n = Inr (u1, item1, n1)"
    using extract_total(2) by blast
  obtain u2 item2 n2 where b: "extract_children ys item1 n1 = Inr (u2, item2, n2)"
    using extract_total(2) by blast
  from extract_children_append[OF a b] a b show ?thesis by simp
qed

section \<open>Serialisation of the type and the identifier\<close>

lemma json_type_absent:
  "itemtype it = None \<Longrightarrow> map_of (props it) ''itemtype'' = None \<Longrightarrow> json_type it = Inr []"
  by (simp add: json_type_def Item_getattr_def Item_get_def Item_get_all_def)

lemma json_id_absent:
  "itemid it = None \<Longrightarrow> map_of (props it) ''itemid'' = None \<Longrightarrow> json_id it = Inr []"
  by (simp add: json_id_def Item_getattr_def Item_get_def Item_get_all_def)

lemma make_item_empty_attrs:
  assumes "is_itemscope e"
  shows "\<exists>it. make_item e n = Inr it
     \<and> (attr e ''itemtype'' = Some [] \<longrightarrow> itemtype it = None \<and> json_type it = Inr [])
     \<and> (attr e ''itemid'' = Some [] \<longrightarrow> itemid it = None \<and> json_id it = Inr [])"
  using assms
  by (simp add: make_item_def Item_init_def truthy_def json_type_def json_id_def
      Item_getattr_def Item_get_def Item_get_all_def)

section \<open>The claims\<close>

subsection \<open>C1: what the flat list holds\<close>

text \<open>
  C1 says that an Item attached as a nested property value (an element with a non-empty
  \<^verbatim>\<open>itemprop\<close> and \<^verbatim>\<open>itemscope\<close> inside an Item) is also an entry of the flat list
  that \<^verbatim>\<open>_find_items\<close> returns. On the nested scenario of the specification the flat
  list has one entry, the outer Item, and the Person Item is only in its \<^verbatim>\<open>author\<close>
  list.
\<close>

theorem nested_item_not_top_level:
  "find_items (Node ''div'' [(''itemscope'', '''')] None None
      [Node ''div'' [(''itemprop'', ''author''), (''itemscope'', ''''), (''itemtype'', ''Person'')]
         None None [Node ''span'' [(''itemprop'', ''name'')] (Some ''Jo'') None []]]) 0
   = Inr ([Item 0 None None
            [(''author'', [PItem (Item 1 (Some [URI (Some ''Person'')]) None
                                    [(''name'', [PStr ''Jo''])])])]], 2)"
  by (simp add: find_items.simps find_items_each.simps extract_children.simps
      is_element_def is_itemscope_def attr_def make_item_def Item_init_def truthy_def
      Item_set_def property_value_def property_values_def text_of_def iterwalk_def of_str_def)

text \<open>
  C1, amended: for every node \<^verbatim>\<open>_find_items\<close> returns a list and does not raise. The
  entries of the list are, in document order, the Items of exactly the elements with
  \<^verbatim>\<open>itemscope\<close> that have no ancestor with \<^verbatim>\<open>itemscope\<close> below the node or no
  non-empty \<^verbatim>\<open>itemprop\<close>. Every element with \<^verbatim>\<open>itemscope\<close> that is reachable from
  the node has its Item in the result, as an entry of the flat list or nested at some
  depth in the property values of one; the result holds as many Items as there are such
  elements, they are distinct objects, and no Item nested in an entry is itself an entry
  of the flat list. The Item of an element with a non-empty \<^verbatim>\<open>itemprop\<close> and
  \<^verbatim>\<open>itemscope\<close> that is reached from an element with \<^verbatim>\<open>itemscope\<close> through elements
  without it is a value of the property named by the \<^verbatim>\<open>itemprop\<close> string in the Item
  of that element.
\<close>

theorem find_items_every_item_once:
  "(\<exists>items n'. find_items e n = Inr (items, n')
      \<and> list_all2 item_of (flat_roots False e) items
      \<and> subseq (flat_roots False e) (e # descendants e)
      \<and> (\<forall>r \<in> set (e # descendants e). is_itemscope r \<longrightarrow>
            (\<exists>it \<in> set (concat (map all_items items)). item_of r it))
      \<and> length (concat (map all_items items)) = length (filter is_itemscope (e # descendants e))
      \<and> n' = n + length (filter is_itemscope (e # descendants e))
      \<and> distinct (map oid (concat (map all_items items)))
      \<and> (\<forall>flat \<in> set items. \<forall>it \<in> set (nested_items flat). oid it \<notin> oid ` set items))
   \<and> (item_of r parent \<longrightarrow>
        (\<forall>c \<in> set (direct_linked r). \<exists>nested. item_of c nested
            \<and> PItem nested \<in> set (Item_get_all parent (the (attr c ''itemprop'')))
            \<and> nested \<in> set (nested_items parent)))"
proof (intro conjI impI)
  obtain items n' where f: "find_items e n = Inr (items, n')"
    using find_items_total(1) by blast
  from find_items_oids(1)[OF f]
  have m: "mset (concat (map item_oids items)) = mset [n..<n']" by simp
  from m have d: "distinct (concat (map item_oids items))"
    by (metis distinct_upt mset_eq_imp_distinct_iff)
  from m have "length (concat (map item_oids items)) = length [n..<n']"
    by (rule mset_eq_length)
  then have "length (concat (map all_items items)) = n' - n"
    using oids_of_all_items[of items] by (metis length_map length_upt)
  moreover note c = find_items_count(1)[OF f]
  ultimately have len: "length (concat (map all_items items))
      = length (filter is_itemscope (e # descendants e))" by simp
  have nf: "\<forall>flat \<in> set items. \<forall>it \<in> set (nested_items flat). oid it \<notin> oid ` set items"
    using nested_not_flat[OF d] by blast
  from f find_items_flat_roots(1)[OF f] flat_roots_order[of False e] find_items_complete(1)[OF f]
    len c d nf
  show "\<exists>items n'. find_items e n = Inr (items, n')
      \<and> list_all2 item_of (flat_roots False e) items
      \<and> subseq (flat_roots False e) (e # descendants e)
      \<and> (\<forall>r \<in> set (e # descendants e). is_itemscope r \<longrightarrow>
            (\<exists>it \<in> set (concat (map all_items items)). item_of r it))
      \<and> length (concat (map all_items items)) = length (filter is_itemscope (e # descendants e))
      \<and> n' = n + length (filter is_itemscope (e # descendants e))
      \<and> distinct (map oid (concat (map all_items items)))
      \<and> (\<forall>flat \<in> set items. \<forall>it \<in> set (nested_items flat). oid it \<notin> oid ` set items)"
    by (simp only: oids_of_all_items) blast
next
  assume "item_of r parent"
  then obtain u k where
    x: "extract_item r (Item_init (oid parent) (attr r ''itemtype'') (attr r ''itemid''))
          (Suc (oid parent)) = Inr (u, parent, k)"
    by (auto simp: item_of_def)
  from extract_direct_linked(1)[OF x] value_in_props_nested
  show "\<forall>c \<in> set (direct_linked r). \<exists>nested. item_of c nested
            \<and> PItem nested \<in> set (Item_get_all parent (the (attr c ''itemprop'')))
            \<and> nested \<in> set (nested_items parent)"
    by blast
qed

theorem find_items_every_item_once_witness:
  "find_items (Node ''div'' [(''itemscope'', '''')] None None
      [Node ''div'' [(''itemprop'', ''author''), (''itemscope'', ''''), (''itemtype'', ''Person'')]
         None None [Node ''span'' [(''itemprop'', ''name'')] (Some ''Jo'') None []]]) 0
   = Inr ([Item 0 None None
            [(''author'', [PItem (Item 1 (Some [URI (Some ''Person'')]) None
                                    [(''name'', [PStr ''Jo''])])])]], 2)
   \<and> item_of (Node ''div'' [(''itemscope'', '''')] None None
      [Node ''div'' [(''itemprop'', ''author''), (''itemscope'', ''''), (''itemtype'', ''Person'')]
         None None [Node ''span'' [(''itemprop'', ''name'')] (Some ''Jo'') None []]])
       (Item 0 None None
            [(''author'', [PItem (Item 1 (Some [URI (Some ''Person'')]) None
                                    [(''name'', [PStr ''Jo''])])])])
   \<and> direct_linked (Node ''div'' [(''itemscope'', '''')] None None
      [Node ''div'' [(''itemprop'', ''author''), (''itemscope'', ''''), (''itemtype'', ''Person'')]
         None None [Node ''span'' [(''itemprop'', ''name'')] (Some ''Jo'') None []]])
     = [Node ''div'' [(''itemprop'', ''author''), (''itemscope'', ''''), (''itemtype'', ''Person'')]
         None None [Node ''span'' [(''itemprop'', ''name'')] (Some ''Jo'') None []]]
   \<and> nested_items (Item 0 None None
            [(''author'', [PItem (Item 1 (Some [URI (Some ''Person'')]) None
                                    [(''name'', [PStr ''Jo''])])])])
     = [Item 1 (Some [URI (Some ''Person'')]) None [(''name'', [PStr ''Jo''])]]
   \<and> oid (Item 1 (Some [URI (Some ''Person'')]) None [(''name'', [PStr ''Jo''])])
       \<notin> oid ` set [Item 0 None None
            [(''author'', [PItem (Item 1 (Some [URI (Some ''Person'')]) None
                                    [(''name'', [PStr ''Jo''])])])]]"
proof -
  let ?c = "Node ''div'' [(''itemprop'', ''author''), (''itemscope'', ''''), (''itemtype'', ''Person'')]
         None None [Node ''span'' [(''itemprop'', ''name'')] (Some ''Jo'') None []]"
  let ?e = "Node ''div'' [(''itemscope'', '''')] None None [?c]"
  let ?ni = "Item 1 (Some [URI (Some ''Person'')]) None [(''name'', [PStr ''Jo''])]"
  let ?o = "Item 0 None None [(''author'', [PItem ?ni])]"
  have x: "extract_item ?e (Item_init 0 (attr ?e ''itemtype'') (attr ?e ''itemid'')) (Suc 0)
             = Inr ([], ?o, 2)"
    by (simp add: extract_children.simps is_itemscope_def attr_def make_item_def Item_init_def
        truthy_def Item_set_def property_value_def property_values_def text_of_def iterwalk_def
        of_str_def)
  have f: "find_items ?e 0 = Inr ([?o], 2)"
    using x by (simp add: find_items_scoped is_itemscope_def attr_def)
  have io: "item_of ?e ?o"
    unfolding item_of_def using x by (auto simp: is_itemscope_def attr_def)
  have dl: "direct_linked ?e = [?c]"
    by (simp add: is_itemscope_def attr_def truthy_def)
  have ns: "nested_items ?o = [?ni]" by (simp add: nested_items_def)
  note t = find_items_every_item_once[of ?e 0 ?e ?o]
  from t f have "\<forall>flat \<in> set [?o]. \<forall>it \<in> set (nested_items flat). oid it \<notin> oid ` set [?o]"
    by auto
  with ns have nf: "oid ?ni \<notin> oid ` set [?o]" by simp
  from f io dl ns nf show ?thesis by simp
qed

subsection \<open>C2: the text of an element\<close>

text \<open>
  C2 says that the computed text leaves out the text inside \<^verbatim>\<open>script\<close> descendants and
  keeps the tail text that follows a \<^verbatim>\<open>script\<close> element. \<^verbatim>\<open>_textiter\<close> skips every
  event of an element that fails the predicate, the end event with its tail included, and
  it still visits the elements below a \<^verbatim>\<open>script\<close> element. So in
  \<^verbatim>\<open><p>a<script>js</script>b</p>\<close> the \<^verbatim>\<open>b\<close> is lost (behind a \<^verbatim>\<open>span\<close> it is kept),
  and the text and tail of an element below a \<^verbatim>\<open>script\<close> element are kept.
\<close>

theorem text_of_drops_script_tail:
  "text_of (Node ''p'' [] (Some ''a'') None
              [Node ''script'' [] (Some ''js'') (Some ''b'') []]) = ''a''
   \<and> text_of (Node ''p'' [] (Some ''a'') None
              [Node ''span'' [] (Some ''s'') (Some ''b'') []]) = ''asb''
   \<and> text_of (Node ''p'' [] (Some ''a'') None
              [Node ''script'' [] (Some ''js'') None
                 [Node ''b'' [] (Some ''x'') (Some ''y'') []]]) = ''axy''"
  by (simp add: text_of_def iterwalk_def)

subsection \<open>C3: several names in one itemprop\<close>

text \<open>
  C3 says that a node whose \<^verbatim>\<open>itemprop\<close> lists several whitespace-separated names
  puts one value under every name, with or without \<^verbatim>\<open>itemscope\<close>. With \<^verbatim>\<open>itemscope\<close>
  the source calls \<^verbatim>\<open>item.set(itemprop, nested_item)\<close> with the whole attribute:
  \<^verbatim>\<open>itemprop="a b"\<close> gives the one key \<^verbatim>\<open>a b\<close>. Without \<^verbatim>\<open>itemscope\<close> the names are
  the pieces of \<^verbatim>\<open>itemprop.split(" ")\<close>: a tab between \<^verbatim>\<open>a\<close> and \<^verbatim>\<open>b\<close> gives one key.
\<close>

theorem itemprop_names_not_all_keys:
  "extract_children
     [Node ''div'' [(''itemprop'', ''a b''), (''itemscope'', '''')] None None []]
     (Item 0 None None []) 1
   = Inr ([], Item 0 None None [(''a b'', [PItem (Item 1 None None [])])], 2)
   \<and> extract_children
     [Node ''span'' [(''itemprop'', [CHR ''a'', CHR 0x09, CHR ''b''])] (Some ''X'') None []]
     (Item 0 None None []) 1
   = Inr ([], Item 0 None None [([CHR ''a'', CHR 0x09, CHR ''b''], [PStr ''X''])], 1)"
  by (simp add: extract_children.simps is_itemscope_def attr_def make_item_def Item_init_def
      truthy_def Item_set_def property_value_def property_values_def text_of_def iterwalk_def
      of_str_def)

text \<open>
  C3, amended: for a child with a non-empty \<^verbatim>\<open>itemprop\<close> and no \<^verbatim>\<open>itemscope\<close>, one
  value is computed, and the walk goes on (into the children of the child, then to the
  later siblings) from an Item that differs from the Item before in this only: under
  every name it holds the values it held before followed by that one value, once for each
  time the name occurs among the pieces of \<^verbatim>\<open>itemprop.split(" ")\<close>; its keys are the
  keys before and those pieces. So every piece is a key that received the shared value,
  and no other name received it.
\<close>

theorem itemprop_names_share_value:
  assumes "truthy (attr c ''itemprop'')" and "\<not> is_itemscope c"
  shows "\<exists>item1.
           extract_children (c # rest) item n = extract_children (iterchildren c @ rest) item1 n
         \<and> (\<forall>name. Item_get_all item1 name =
                Item_get_all item name
                @ replicate (count_list (py_split CHR '' '' (the (attr c ''itemprop''))) name)
                    (property_value c))
         \<and> fst ` set (props item1)
             = fst ` set (props item) \<union> set (py_split CHR '' '' (the (attr c ''itemprop'')))
         \<and> oid item1 = oid item \<and> itemtype item1 = itemtype item \<and> itemid item1 = itemid item"
proof -
  let ?item1 = "foldl (\<lambda>it i. Item_set it i (property_value c)) item
                  (py_split CHR '' '' (the (attr c ''itemprop'')))"
  have "extract_children (c # rest) item n = extract_children (iterchildren c @ rest) ?item1 n"
    by (simp add: extract_children_plain[OF assms] extract_children_append_eq
        extract_item_children)
  moreover have "\<forall>name. Item_get_all ?item1 name =
                Item_get_all item name
                @ replicate (count_list (py_split CHR '' '' (the (attr c ''itemprop''))) name)
                    (property_value c)"
    by (simp add: Item_get_all_foldl_set)
  moreover have "fst ` set (props ?item1)
             = fst ` set (props item) \<union> set (py_split CHR '' '' (the (attr c ''itemprop'')))"
    by (rule foldl_set_keys)
  ultimately show ?thesis by (intro exI[where x = ?item1]) simp
qed

theorem itemprop_names_share_value_witness:
  "truthy (attr (Node ''span'' [(''itemprop'', ''a b'')] (Some ''X'') None []) ''itemprop'')
   \<and> \<not> is_itemscope (Node ''span'' [(''itemprop'', ''a b'')] (Some ''X'') None [])
   \<and> extract_children [Node ''span'' [(''itemprop'', ''a b'')] (Some ''X'') None []]
        (Item 0 None None []) 1
      = Inr ([], Item 0 None None [(''a'', [PStr ''X'']), (''b'', [PStr ''X''])], 1)
   \<and> Item_get_all (Item 0 None None [(''a'', [PStr ''X'']), (''b'', [PStr ''X''])]) ''a''
      = [PStr ''X'']
   \<and> Item_get_all (Item 0 None None [(''a'', [PStr ''X'']), (''b'', [PStr ''X''])]) ''b''
      = [PStr ''X'']"
proof -
  let ?c = "Node ''span'' [(''itemprop'', ''a b'')] (Some ''X'') None []"
  let ?r = "Item 0 None None [(''a'', [PStr ''X'']), (''b'', [PStr ''X''])]"
  have a: "truthy (attr ?c ''itemprop'')" by (simp add: truthy_def attr_def)
  have b: "\<not> is_itemscope ?c" by (simp add: is_itemscope_def attr_def)
  have v: "property_value ?c = PStr ''X''"
    by (simp add: property_value_def property_values_def text_of_def iterwalk_def attr_def
        truthy_def)
  from itemprop_names_share_value[OF a b, of "[]" "Item 0 None None []" 1] obtain item1 where
    x: "extract_children [?c] (Item 0 None None []) 1 = extract_children (iterchildren ?c @ []) item1 1"
    and g: "\<forall>name. Item_get_all item1 name =
                Item_get_all (Item 0 None None []) name
                @ replicate (count_list (py_split CHR '' '' (the (attr ?c ''itemprop''))) name)
                    (property_value ?c)"
    by blast
  from x have x': "extract_children [?c] (Item 0 None None []) 1 = Inr ([], item1, 1)" by simp
  have r: "extract_children [?c] (Item 0 None None []) 1 = Inr ([], ?r, 1)"
    by (simp add: extract_children.simps is_itemscope_def attr_def truthy_def Item_set_def
        property_value_def property_values_def text_of_def iterwalk_def of_str_def Let_def)
  with x' have "item1 = ?r" by simp
  with g v have "Item_get_all ?r ''a'' = [PStr ''X'']" "Item_get_all ?r ''b'' = [PStr ''X'']"
    by (simp_all add: attr_def Item_get_all_def)
  with a b r show ?thesis by simp
qed

subsection \<open>C4: the types of an Item\<close>

text \<open>
  C4 says that the types are the \<^verbatim>\<open>itemtype\<close> value split on whitespace. The source
  splits with \<^verbatim>\<open>itemtype.split(" ")\<close>: two spaces between \<^verbatim>\<open>T1\<close> and \<^verbatim>\<open>T2\<close> give
  an empty type between them, and a tab does not separate.
\<close>

theorem itemtype_not_split_on_whitespace:
  "make_item (Node ''div'' [(''itemscope'', ''''), (''itemtype'', ''T1  T2'')] None None []) 0
       = Inr (Item 0 (Some [URI (Some ''T1''), URI (Some ''''), URI (Some ''T2'')]) None [])
   \<and> make_item (Node ''div'' [(''itemscope'', ''''),
                   (''itemtype'', [CHR ''T'', CHR 0x09, CHR ''U''])] None None []) 0
       = Inr (Item 0 (Some [URI (Some [CHR ''T'', CHR 0x09, CHR ''U''])]) None [])"
  by (simp add: is_itemscope_def attr_def make_item_def Item_init_def truthy_def)

text \<open>
  C4, amended: for every element with \<^verbatim>\<open>itemscope\<close> an Item is made; when the
  \<^verbatim>\<open>itemtype\<close> attribute is present and not empty, its types are the URIs of the pieces
  that \<^verbatim>\<open>split(" ")\<close> gives, in order: joined with single spaces the pieces give the
  attribute value back and no piece holds a space. The types are absent when the attribute
  is absent or empty.
\<close>

theorem make_item_itemtype:
  assumes "is_itemscope e"
  shows "\<exists>it. make_item e n = Inr it \<and>
           (case attr e ''itemtype'' of
              None \<Rightarrow> itemtype it = None
            | Some s \<Rightarrow>
                if s = [] then itemtype it = None
                else itemtype it = Some (map (\<lambda>p. URI (Some p)) (py_split CHR '' '' s))
                     \<and> py_join CHR '' '' (py_split CHR '' '' s) = s
                     \<and> (\<forall>p \<in> set (py_split CHR '' '' s). CHR '' '' \<notin> set p))"
  using assms
  by (auto simp: make_item_def Item_init_def truthy_def py_join_split py_split_no_sep
           split: option.splits)

theorem make_item_itemtype_witness:
  "is_itemscope (Node ''div'' [(''itemscope'', ''''), (''itemtype'', ''T1 T2'')] None None [])
   \<and> make_item (Node ''div'' [(''itemscope'', ''''), (''itemtype'', ''T1 T2'')] None None []) 0
       = Inr (Item 0 (Some [URI (Some ''T1''), URI (Some ''T2'')]) None [])"
  using make_item_itemtype[of
      "Node ''div'' [(''itemscope'', ''''), (''itemtype'', ''T1 T2'')] None None []" 0]
  by (simp add: is_itemscope_def attr_def make_item_def Item_init_def truthy_def)

subsection \<open>C5: an itemscope child without itemprop\<close>

text \<open>
  C5 says that a root with \<^verbatim>\<open>itemscope\<close> that directly contains a child with
  \<^verbatim>\<open>itemscope\<close> and no \<^verbatim>\<open>itemprop\<close> gives exactly two Items. Such a root with two
  such children gives three Items, and so does one whose only child has such a child of
  its own.
\<close>

theorem more_than_two_items:
  "find_items (Node ''div'' [(''itemscope'', '''')] None None
      [Node ''div'' [(''itemscope'', ''''), (''itemtype'', ''X'')] None None [],
       Node ''div'' [(''itemscope'', ''''), (''itemtype'', ''Y'')] None None []]) 0
   = Inr ([Item 0 None None [], Item 1 (Some [URI (Some ''X'')]) None [],
           Item 2 (Some [URI (Some ''Y'')]) None []], 3)
   \<and> find_items (Node ''div'' [(''itemscope'', '''')] None None
      [Node ''div'' [(''itemscope'', ''''), (''itemtype'', ''X'')] None None
         [Node ''div'' [(''itemscope'', ''''), (''itemtype'', ''Z'')] None None []]]) 0
   = Inr ([Item 0 None None [], Item 1 (Some [URI (Some ''X'')]) None [],
           Item 2 (Some [URI (Some ''Z'')]) None []], 3)"
  by (simp add: find_items.simps find_items_each.simps extract_children.simps
      is_element_def is_itemscope_def attr_def make_item_def Item_init_def truthy_def)

text \<open>
  C5, amended: a child with \<^verbatim>\<open>itemscope\<close> and no (or an empty) \<^verbatim>\<open>itemprop\<close> is added
  to the unlinked list at the place where it is met, between the unlinked elements of the
  children before it and of those after it, and neither the Item nor the count of objects
  changes for it: the extraction does not descend into it. At an element with
  \<^verbatim>\<open>itemscope\<close>, \<^verbatim>\<open>_find_items\<close> returns the Item of the element followed by what
  \<^verbatim>\<open>_find_items\<close> returns for each unlinked element, in the order of the unlinked list,
  and what it returns for an unlinked element starts with the Item of that element. For a
  root with \<^verbatim>\<open>itemscope\<close> whose only child is such an element with no unlinked element
  below it, the result is exactly the outer Item, with empty properties, then the inner
  Item with the types of the child.
\<close>

theorem unlinked_child_promoted:
  assumes "is_itemscope c" and "\<not> truthy (attr c ''itemprop'')"
  shows "(extract_children pre item m = Inr (u1, item1, m1) \<longrightarrow>
          extract_children post item1 m1 = Inr (u2, item2, m2) \<longrightarrow>
          extract_children (pre @ c # post) item m = Inr (u1 @ c # u2, item2, m2))
       \<and> (is_itemscope r \<longrightarrow>
          (\<exists>unlinked found ks parts.
             extract_item r (Item_init k (attr r ''itemtype'') (attr r ''itemid'')) (Suc k)
               = Inr (unlinked, found, hd ks)
           \<and> length ks = Suc (length unlinked) \<and> length parts = length unlinked
           \<and> (\<forall>i < length unlinked.
                 find_items (unlinked ! i) (ks ! i) = Inr (parts ! i, ks ! Suc i)
                 \<and> parts ! i \<noteq> [] \<and> item_of (unlinked ! i) (hd (parts ! i)))
           \<and> find_items r k = Inr (found # concat parts, last ks)))
       \<and> (is_itemscope e \<longrightarrow> iterchildren e = [c] \<longrightarrow>
          extract_item c (Item_init (Suc n) (attr c ''itemtype'') (attr c ''itemid'')) (Suc (Suc n))
            = Inr ([], inner, n') \<longrightarrow>
          find_items e n = Inr ([Item_init n (attr e ''itemtype'') (attr e ''itemid''), inner], n')
          \<and> props (Item_init n (attr e ''itemtype'') (attr e ''itemid'')) = []
          \<and> itemtype inner = itemtype (Item_init (Suc n) (attr c ''itemtype'') (attr c ''itemid'')))"
proof (intro conjI impI)
  assume a: "extract_children pre item m = Inr (u1, item1, m1)"
    and b: "extract_children post item1 m1 = Inr (u2, item2, m2)"
  from b have "extract_children (c # post) item1 m1 = Inr (c # u2, item2, m2)"
    by (simp add: extract_children_unlinked[OF assms(2,1)])
  from extract_children_append[OF a this]
  show "extract_children (pre @ c # post) item m = Inr (u1 @ c # u2, item2, m2)" .
next
  assume "is_itemscope r"
  then show "\<exists>unlinked found ks parts.
             extract_item r (Item_init k (attr r ''itemtype'') (attr r ''itemid'')) (Suc k)
               = Inr (unlinked, found, hd ks)
           \<and> length ks = Suc (length unlinked) \<and> length parts = length unlinked
           \<and> (\<forall>i < length unlinked.
                 find_items (unlinked ! i) (ks ! i) = Inr (parts ! i, ks ! Suc i)
                 \<and> parts ! i \<noteq> [] \<and> item_of (unlinked ! i) (hd (parts ! i)))
           \<and> find_items r k = Inr (found # concat parts, last ks)"
    by (rule find_items_promotes)
next
  assume e: "is_itemscope e" and cs: "iterchildren e = [c]"
    and x: "extract_item c (Item_init (Suc n) (attr c ''itemtype'') (attr c ''itemid''))
              (Suc (Suc n)) = Inr ([], inner, n')"
  have "extract_item e (Item_init n (attr e ''itemtype'') (attr e ''itemid'')) (Suc n)
          = Inr ([c], Item_init n (attr e ''itemtype'') (attr e ''itemid''), Suc n)"
    using cs by (cases e) (simp add: extract_children_unlinked[OF assms(2,1)])
  moreover have "find_items c (Suc n) = Inr ([inner], n')"
    using x by (simp add: find_items_scoped[OF assms(1)])
  ultimately show
    "find_items e n = Inr ([Item_init n (attr e ''itemtype'') (attr e ''itemid''), inner], n')"
    by (simp add: find_items_scoped[OF e] find_items_each_Cons)
  show "props (Item_init n (attr e ''itemtype'') (attr e ''itemid'')) = []"
    by (simp add: Item_init_def)
  show "itemtype inner = itemtype (Item_init (Suc n) (attr c ''itemtype'') (attr c ''itemid''))"
    using extract_attrs(1)[OF x] by simp
qed

theorem unlinked_child_promoted_witness:
  "is_itemscope (Node ''div'' [(''itemscope'', ''''), (''itemtype'', ''X'')] None None [])
   \<and> \<not> truthy (attr (Node ''div'' [(''itemscope'', ''''), (''itemtype'', ''X'')] None None [])
                 ''itemprop'')
   \<and> is_itemscope (Node ''div'' [(''itemscope'', '''')] None None
        [Node ''div'' [(''itemscope'', ''''), (''itemtype'', ''X'')] None None [],
         Node ''div'' [(''itemscope'', ''''), (''itemtype'', ''Y'')] None None []])
   \<and> extract_item (Node ''div'' [(''itemscope'', '''')] None None
        [Node ''div'' [(''itemscope'', ''''), (''itemtype'', ''X'')] None None [],
         Node ''div'' [(''itemscope'', ''''), (''itemtype'', ''Y'')] None None []])
        (Item 0 None None []) 1
      = Inr ([Node ''div'' [(''itemscope'', ''''), (''itemtype'', ''X'')] None None [],
              Node ''div'' [(''itemscope'', ''''), (''itemtype'', ''Y'')] None None []],
             Item 0 None None [], 1)
   \<and> find_items (Node ''div'' [(''itemscope'', '''')] None None
        [Node ''div'' [(''itemscope'', ''''), (''itemtype'', ''X'')] None None [],
         Node ''div'' [(''itemscope'', ''''), (''itemtype'', ''Y'')] None None []]) 0
      = Inr ([Item 0 None None [], Item 1 (Some [URI (Some ''X'')]) None [],
              Item 2 (Some [URI (Some ''Y'')]) None []], 3)
   \<and> find_items (Node ''div'' [(''itemscope'', '''')] None None
        [Node ''div'' [(''itemscope'', ''''), (''itemtype'', ''X'')] None None []]) 0
      = Inr ([Item 0 None None [], Item 1 (Some [URI (Some ''X'')]) None []], 2)"
proof -
  let ?c = "Node ''div'' [(''itemscope'', ''''), (''itemtype'', ''X'')] None None []"
  let ?d = "Node ''div'' [(''itemscope'', ''''), (''itemtype'', ''Y'')] None None []"
  let ?r = "Node ''div'' [(''itemscope'', '''')] None None [?c, ?d]"
  let ?e = "Node ''div'' [(''itemscope'', '''')] None None [?c]"
  have a: "is_itemscope ?c" by (simp add: is_itemscope_def attr_def)
  have b: "\<not> truthy (attr ?c ''itemprop'')" by (simp add: truthy_def attr_def)
  have r: "is_itemscope ?r" by (simp add: is_itemscope_def attr_def)
  have e: "is_itemscope ?e" by (simp add: is_itemscope_def attr_def)
  have xr: "extract_item ?r (Item 0 None None []) 1 = Inr ([?c, ?d], Item 0 None None [], 1)"
    by (simp add: extract_children.simps is_itemscope_def attr_def truthy_def)
  have x: "extract_item ?c (Item_init (Suc 0) (attr ?c ''itemtype'') (attr ?c ''itemid''))
             (Suc (Suc 0)) = Inr ([], Item 1 (Some [URI (Some ''X'')]) None [], 2)"
    by (simp add: Item_init_def attr_def truthy_def)
  note t = unlinked_child_promoted[where c = ?c and e = ?e and n = 0 and n' = 2
        and inner = "Item 1 (Some [URI (Some ''X'')]) None []" and r = ?r and k = 0, OF a b]
  from t e x have two: "find_items ?e 0
      = Inr ([Item_init 0 (attr ?e ''itemtype'') (attr ?e ''itemid''),
              Item 1 (Some [URI (Some ''X'')]) None []], 2)"
    by simp
  have three: "find_items ?r 0
      = Inr ([Item 0 None None [], Item 1 (Some [URI (Some ''X'')]) None [],
              Item 2 (Some [URI (Some ''Y'')]) None []], 3)"
    by (simp add: find_items.simps find_items_each.simps extract_children.simps
      is_element_def is_itemscope_def attr_def make_item_def Item_init_def truthy_def)
  from a b r xr two three show ?thesis by (simp add: Item_init_def attr_def truthy_def)
qed

subsection \<open>C6: a mapped attribute that is absent\<close>

text \<open>
  C6 says that the value of a property element whose mapped attribute is absent is a
  null value. For the tags mapped to \<^verbatim>\<open>href\<close> or \<^verbatim>\<open>src\<close> the source computes
  \<^verbatim>\<open>URI(e.get(attrib))\<close>: the value stored is a URI object that wraps \<^verbatim>\<open>None\<close>, not
  \<^verbatim>\<open>None\<close>.
\<close>

theorem missing_src_gives_uri:
  "map_of property_values (tag (Node ''img'' [(''itemprop'', ''photo'')] None None []))
     = Some ''src''
   \<and> attr (Node ''img'' [(''itemprop'', ''photo'')] None None []) ''src'' = None
   \<and> property_value (Node ''img'' [(''itemprop'', ''photo'')] None None []) = PURI (URI None)
   \<and> extract_children [Node ''img'' [(''itemprop'', ''photo'')] None None []]
        (Item 0 None None []) 1
      = Inr ([], Item 0 None None [(''photo'', [PURI (URI None)])], 1)"
  by (simp add: extract_children.simps is_itemscope_def attr_def truthy_def Item_set_def
      property_value_def property_values_def)

text \<open>
  C6, amended: for an element whose tag is in \<^verbatim>\<open>property_values\<close> and whose mapped
  attribute is absent, \<^verbatim>\<open>_property_value\<close> does not raise; the value is \<^verbatim>\<open>None\<close> for
  the attributes \<^verbatim>\<open>content\<close>, \<^verbatim>\<open>data\<close> and \<^verbatim>\<open>datetime\<close>, and a URI that wraps
  \<^verbatim>\<open>None\<close> for \<^verbatim>\<open>href\<close> and \<^verbatim>\<open>src\<close>. In both cases \<^verbatim>\<open>json_dict\<close> writes \<^verbatim>\<open>None\<close>
  for it, and when the element is a property (non-empty \<^verbatim>\<open>itemprop\<close>, no
  \<^verbatim>\<open>itemscope\<close>) the value is stored in the enclosing Item under every piece of
  \<^verbatim>\<open>itemprop.split(" ")\<close>.
\<close>

theorem missing_default_attribute_value:
  assumes "map_of property_values (tag c) = Some a" and "attr c a = None"
  shows "property_value c = (if a = ''href'' \<or> a = ''src'' then PURI (URI None) else PNone)
     \<and> json_values name [property_value c] out = Inr (dict_append out name (PyVal PNone))
     \<and> (truthy (attr c ''itemprop'') \<longrightarrow> \<not> is_itemscope c \<longrightarrow>
          extract_children (c # rest) item n = Inr (u, item', n') \<longrightarrow>
          (\<forall>i \<in> set (py_split CHR '' '' (the (attr c ''itemprop''))).
             property_value c \<in> set (Item_get_all item' i)))"
proof (intro conjI impI ballI)
  have ne: "a \<noteq> []" using assms(1) by (rule mapped_attr_not_empty)
  show pv: "property_value c = (if a = ''href'' \<or> a = ''src'' then PURI (URI None) else PNone)"
    using assms ne by (simp add: property_value_def truthy_def of_str_def)
  show "json_values name [property_value c] out = Inr (dict_append out name (PyVal PNone))"
    by (simp add: pv of_str_def)
next
  fix i
  assume a: "truthy (attr c ''itemprop'')" "\<not> is_itemscope c"
    and e: "extract_children (c # rest) item n = Inr (u, item', n')"
    and i: "i \<in> set (py_split CHR '' '' (the (attr c ''itemprop'')))"
  from i have "count_list (py_split CHR '' '' (the (attr c ''itemprop''))) i \<noteq> 0"
    by (simp add: count_list_0_iff)
  then obtain k where "count_list (py_split CHR '' '' (the (attr c ''itemprop''))) i = Suc k"
    using not0_implies_Suc by blast
  with plain_child_values[OF a e, of i]
  show "property_value c \<in> set (Item_get_all item' i)" by auto
qed

theorem missing_default_attribute_value_witness:
  "map_of property_values (tag (Node ''meta'' [(''itemprop'', ''d'')] None None []))
     = Some ''content''
   \<and> attr (Node ''meta'' [(''itemprop'', ''d'')] None None []) ''content'' = None
   \<and> truthy (attr (Node ''meta'' [(''itemprop'', ''d'')] None None []) ''itemprop'')
   \<and> \<not> is_itemscope (Node ''meta'' [(''itemprop'', ''d'')] None None [])
   \<and> property_value (Node ''meta'' [(''itemprop'', ''d'')] None None []) = PNone
   \<and> extract_children [Node ''meta'' [(''itemprop'', ''d'')] None None []]
        (Item 0 None None []) 1
      = Inr ([], Item 0 None None [(''d'', [PNone])], 1)
   \<and> PNone \<in> set (Item_get_all (Item 0 None None [(''d'', [PNone])]) ''d'')"
proof -
  let ?c = "Node ''meta'' [(''itemprop'', ''d'')] None None []"
  have m: "map_of property_values (tag ?c) = Some ''content''"
    by (simp add: property_values_def)
  have n: "attr ?c ''content'' = None" by (simp add: attr_def)
  have a: "truthy (attr ?c ''itemprop'')" by (simp add: truthy_def attr_def)
  have b: "\<not> is_itemscope ?c" by (simp add: is_itemscope_def attr_def)
  have x: "extract_children [?c] (Item 0 None None []) 1
             = Inr ([], Item 0 None None [(''d'', [PNone])], 1)"
    by (simp add: extract_children.simps is_itemscope_def attr_def truthy_def Item_set_def
        property_value_def property_values_def of_str_def)
  note t = missing_default_attribute_value[OF m n, where rest = "[]"
        and item = "Item 0 None None []" and n = 1
        and u = "[]" and item' = "Item 0 None None [(''d'', [PNone])]" and n' = 1]
  from t have v: "property_value ?c = PNone" by simp
  from t a b x have "\<forall>i \<in> set (py_split CHR '' '' (the (attr ?c ''itemprop''))).
             property_value ?c \<in> set (Item_get_all (Item 0 None None [(''d'', [PNone])]) i)"
    by blast
  then have "PNone \<in> set (Item_get_all (Item 0 None None [(''d'', [PNone])]) ''d'')"
    using v by (simp add: attr_def)
  with m n a b v x show ?thesis by simp
qed

subsection \<open>C7: the value of a property whose tag has no default attribute\<close>

text \<open>
  C7 says that the value is the \<^verbatim>\<open>content\<close> attribute whenever that attribute is
  present. The source computes \<^verbatim>\<open>e.get("content") or _text(e)\<close>: a \<^verbatim>\<open>content\<close>
  attribute that is present and empty gives the text of the element.
\<close>

theorem empty_content_gives_text:
  "map_of property_values
     (tag (Node ''span'' [(''itemprop'', ''x''), (''content'', '''')] (Some ''hello'') None []))
     = None
   \<and> attr (Node ''span'' [(''itemprop'', ''x''), (''content'', '''')] (Some ''hello'') None [])
        ''content'' = Some ''''
   \<and> property_value
        (Node ''span'' [(''itemprop'', ''x''), (''content'', '''')] (Some ''hello'') None [])
      = PStr ''hello''"
  by (simp add: property_values_def attr_def property_value_def truthy_def text_of_def
      iterwalk_def)

text \<open>
  C7, amended: for an element whose tag has no entry in \<^verbatim>\<open>property_values\<close>, the value
  is the \<^verbatim>\<open>content\<close> attribute when it is present and not empty, and the text of the
  element when the attribute is absent or empty.
\<close>

theorem property_value_unmapped:
  assumes "map_of property_values (tag e) = None"
  shows "property_value e =
           (case attr e ''content'' of
              None \<Rightarrow> PStr (text_of e)
            | Some s \<Rightarrow> if s = [] then PStr (text_of e) else PStr s)"
  using assms by (simp add: property_value_def truthy_def of_str_def split: option.splits)

theorem property_value_unmapped_witness:
  "map_of property_values
     (tag (Node ''span'' [(''itemprop'', ''x''), (''content'', ''c'')] (Some ''t'') None []))
     = None
   \<and> property_value
        (Node ''span'' [(''itemprop'', ''x''), (''content'', ''c'')] (Some ''t'') None [])
      = PStr ''c''"
  using property_value_unmapped[of
      "Node ''span'' [(''itemprop'', ''x''), (''content'', ''c'')] (Some ''t'') None []"]
  by (simp add: property_values_def attr_def)

subsection \<open>C8: the property dictionary of an Item\<close>

text \<open>
  C8: \<^verbatim>\<open>__init__\<close> gives every Item a property dictionary, empty at first.
  \<^verbatim>\<open>set\<close> is the only method that changes it: it keeps every list of the dictionary
  non-empty and leaves the name it was given with a non-empty list. \<^verbatim>\<open>get\<close>,
  \<^verbatim>\<open>get_all\<close> and \<^verbatim>\<open>json_dict\<close> return values and change no Item. The extraction
  keeps the invariant at every depth, and every Item that \<^verbatim>\<open>_find_items\<close> returns has
  it, with the Items nested in it.
\<close>

theorem item_props_invariant:
  "props (Item_init self t d) = []
   \<and> item_ok (Item_init self t d)
   \<and> ((\<forall>(k, vs) \<in> set (props it). vs \<noteq> [])
        \<longrightarrow> (\<forall>(k, vs) \<in> set (props (Item_set it name v)). vs \<noteq> []))
   \<and> Item_get_all (Item_set it name v) name \<noteq> []
   \<and> (item_ok it \<longrightarrow> value_ok v \<longrightarrow> item_ok (Item_set it name v))
   \<and> (item_ok it \<longrightarrow> extract_item e it n = Inr (u, it', n') \<longrightarrow> item_ok it')
   \<and> (find_items e n = Inr (items, n') \<longrightarrow> (\<forall>i \<in> set items. item_ok i))"
proof (intro conjI impI)
  show "props (Item_init self t d) = []" by (simp add: Item_init_def)
  show "item_ok (Item_init self t d)" by simp
  show "Item_get_all (Item_set it name v) name \<noteq> []" by (simp add: Item_get_all_set)
next
  assume "\<forall>(k, vs) \<in> set (props it). vs \<noteq> []"
  then have "\<forall>(k, vs) \<in> set (dict_append (props it) name v). vs \<noteq> []"
    by (rule dict_append_nonempty)
  then show "\<forall>(k, vs) \<in> set (props (Item_set it name v)). vs \<noteq> []"
    by (simp add: Item_set_def)
next
  assume "item_ok it" "value_ok v"
  then show "item_ok (Item_set it name v)" by (rule Item_set_ok)
next
  assume "item_ok it" "extract_item e it n = Inr (u, it', n')"
  then show "item_ok it'" using extract_ok(1) by blast
next
  assume "find_items e n = Inr (items, n')"
  then show "\<forall>i \<in> set items. item_ok i" by (rule find_items_ok(1))
qed

theorem item_props_invariant_witness:
  "item_ok (Item 0 None None [(''a'', [PStr ''x''])])
   \<and> value_ok PNone
   \<and> Item_set (Item 0 None None [(''a'', [PStr ''x''])]) ''b'' PNone
      = Item 0 None None [(''a'', [PStr ''x'']), (''b'', [PNone])]
   \<and> item_ok (Item 0 None None [(''a'', [PStr ''x'']), (''b'', [PNone])])
   \<and> extract_item (Node ''div'' [] None None [Node ''span'' [(''itemprop'', ''a'')] (Some ''y'') None []])
        (Item 0 None None [(''a'', [PStr ''x''])]) 1
      = Inr ([], Item 0 None None [(''a'', [PStr ''x'', PStr ''y''])], 1)
   \<and> item_ok (Item 0 None None [(''a'', [PStr ''x'', PStr ''y''])])
   \<and> find_items (Node ''div'' [(''itemscope'', '''')] None None []) 0
      = Inr ([Item 0 None None []], 1)"
proof -
  let ?it = "Item 0 None None [(''a'', [PStr ''x''])]"
  let ?e = "Node ''div'' [] None None [Node ''span'' [(''itemprop'', ''a'')] (Some ''y'') None []]"
  let ?it' = "Item 0 None None [(''a'', [PStr ''x'', PStr ''y''])]"
  let ?r = "Node ''div'' [(''itemscope'', '''')] None None []"
  have ok: "item_ok ?it" by simp
  have v: "value_ok PNone" by simp
  have s: "Item_set ?it ''b'' PNone = Item 0 None None [(''a'', [PStr ''x'']), (''b'', [PNone])]"
    by (simp add: Item_set_def)
  have x: "extract_item ?e ?it 1 = Inr ([], ?it', 1)"
    by (simp add: extract_children.simps is_itemscope_def attr_def truthy_def Item_set_def
        property_value_def property_values_def text_of_def iterwalk_def of_str_def Let_def)
  have f: "find_items ?r 0 = Inr ([Item 0 None None []], 1)"
    by (simp add: find_items.simps is_element_def is_itemscope_def attr_def make_item_def
        Item_init_def truthy_def)
  note t = item_props_invariant[where it = ?it and name = "''b''" and v = PNone and e = ?e
      and n = 1 and u = "[]" and it' = ?it' and n' = 1]
  from t ok v s have a: "item_ok (Item 0 None None [(''a'', [PStr ''x'']), (''b'', [PNone])])"
    by simp
  from t ok x have b: "item_ok ?it'" by blast
  from ok v s a x b f show ?thesis by simp
qed

subsection \<open>C9: a document without itemscope\<close>

text \<open>
  C9: for every tree in which no element carries \<^verbatim>\<open>itemscope\<close>, \<^verbatim>\<open>_find_items\<close>
  applied to the root returns the empty list (and creates no Item).
\<close>

theorem find_items_no_itemscope:
  "itemscope_free e \<Longrightarrow> find_items e n = Inr ([], n)"
  by (rule find_items_none(1))

theorem find_items_no_itemscope_witness:
  "itemscope_free (Node ''div'' [(''class'', ''x'')] (Some ''a'') None
      [Node ''span'' [(''itemprop'', ''name'')] (Some ''Jo'') None []])
   \<and> find_items (Node ''div'' [(''class'', ''x'')] (Some ''a'') None
      [Node ''span'' [(''itemprop'', ''name'')] (Some ''Jo'') None []]) 0 = Inr ([], 0)"
  using find_items_no_itemscope[of "Node ''div'' [(''class'', ''x'')] (Some ''a'') None
      [Node ''span'' [(''itemprop'', ''name'')] (Some ''Jo'') None []]" 0]
  by (simp add: is_itemscope_def attr_def)

subsection \<open>C10: an empty itemtype or itemid\<close>

text \<open>
  C10 says that an Item made from an element whose \<^verbatim>\<open>itemtype\<close> (or \<^verbatim>\<open>itemid\<close>) is the
  empty string stores no types (no id) and that its serialised record has no \<^verbatim>\<open>type\<close>
  (no \<^verbatim>\<open>id\<close>) key. Nothing is stored (\<open>make_item_empty_attrs\<close>), and the record of the
  Item as made has neither key. \<^verbatim>\<open>json_dict\<close> reads \<^verbatim>\<open>self.itemid\<close>, though, and for
  an Item without that attribute \<^verbatim>\<open>__getattr__\<close> answers with the property of the same
  name: in \<^verbatim>\<open><div itemscope itemid=""><a itemprop="itemid" href="x"></a></div>\<close> the
  record of the Item has the key \<^verbatim>\<open>id\<close> with the value \<^verbatim>\<open>x\<close>.
\<close>

theorem empty_itemid_serialised_from_property:
  "find_items (Node ''div'' [(''itemscope'', ''''), (''itemid'', '''')] None None
                 [Node ''a'' [(''itemprop'', ''itemid''), (''href'', ''x'')] None None []]) 0
     = Inr ([Item 0 None None [(''itemid'', [PURI (URI (Some ''x''))])]], 1)
   \<and> json_dict (Item 0 None None [(''itemid'', [PURI (URI (Some ''x''))])])
     = Inr (PyDict [(''id'', PyVal (PStr ''x'')),
                    (''properties'', PyDict [(''itemid'', PyList [PyVal (PStr ''x'')])])])"
  by (simp add: find_items.simps find_items_each.simps extract_children.simps
      is_element_def is_itemscope_def attr_def make_item_def Item_init_def truthy_def
      Item_set_def property_value_def property_values_def of_str_def
      json_type_def json_id_def Item_getattr_def Item_get_def Item_get_all_def)

end
